theory Spec2Isabelle
  imports Main "HOL-Library.Word" "HOL-Library.Multiset"
begin

section \<open>Disk allocation functors (thrill/io/block\_alloc\_strategy.hpp)\<close>

text \<open>
  The functors compute on \<open>size_t\<close>, modelled as a 64-bit word: addition, subtraction
  and the remainder wrap as in C++. The remainder by zero is undefined behaviour in C++
  (while \<open>x mod 0 = x\<close> in HOL), so every call operator returns \<open>None\<close> there; reading
  \<open>perm_\<close> out of range is \<open>None\<close> as well.
\<close>

type_synonym size_t = "64 word"

record Striping =
  st_begin :: size_t
  st_diff :: size_t

text \<open>\<open>Striping(size_t b, size_t e) : begin_(b), diff_(e - b)\<close>\<close>

definition Striping_new :: "size_t \<Rightarrow> size_t \<Rightarrow> Striping" where
  "Striping_new b e = \<lparr>st_begin = b, st_diff = e - b\<rparr>"

text \<open>\<open>return begin_ + i % diff_;\<close>\<close>

definition Striping_call :: "Striping \<Rightarrow> size_t \<Rightarrow> size_t option" where
  "Striping_call s i =
     (if st_diff s = 0 then None else Some (st_begin s + i mod st_diff s))"

text \<open>
  \<open>FullyRandom\<close> is a \<open>Striping\<close> with a random engine; \<open>rng\<close> is the value the call
  \<open>rng_()\<close> returns, the index \<open>i\<close> is ignored: \<open>return begin_ + rng_() % diff_;\<close>
\<close>

definition FullyRandom_new :: "size_t \<Rightarrow> size_t \<Rightarrow> Striping" where
  "FullyRandom_new b e = Striping_new b e"

definition FullyRandom_call :: "Striping \<Rightarrow> size_t \<Rightarrow> size_t \<Rightarrow> size_t option" where
  "FullyRandom_call s rng i =
     (if st_diff s = 0 then None else Some (st_begin s + rng mod st_diff s))"

record SimpleRandom = Striping +
  sr_offset :: size_t

text \<open>
  The constructor runs \<open>init()\<close>: \<open>offset_ = rng() % diff_\<close>, with \<open>rng\<close> the value
  the fresh engine returns.
\<close>

definition SimpleRandom_new :: "size_t \<Rightarrow> size_t \<Rightarrow> size_t \<Rightarrow> SimpleRandom option" where
  "SimpleRandom_new b e rng =
     (if e - b = 0 then None
      else Some \<lparr>st_begin = b, st_diff = e - b, sr_offset = rng mod (e - b)\<rparr>)"

text \<open>\<open>return begin_ + (i + offset_) % diff_;\<close>\<close>

definition SimpleRandom_call :: "SimpleRandom \<Rightarrow> size_t \<Rightarrow> size_t option" where
  "SimpleRandom_call s i =
     (if st_diff s = 0 then None else Some (st_begin s + (i + sr_offset s) mod st_diff s))"

record RandomCyclic = Striping +
  rc_perm :: "size_t list"

text \<open>
  The constructor allocates \<open>perm_(diff_)\<close> and runs \<open>init()\<close>: the loop stores
  \<open>perm_[i] = i\<close> for \<open>i < diff_\<close>, then \<open>std::random_shuffle\<close> permutes the vector.
  The shuffle is the standard library's; \<open>shuffle\<close> is the rearrangement it makes.
\<close>

definition RandomCyclic_new ::
  "size_t \<Rightarrow> size_t \<Rightarrow> (size_t list \<Rightarrow> size_t list) \<Rightarrow> RandomCyclic" where
  "RandomCyclic_new b e shuffle =
     \<lparr>st_begin = b, st_diff = e - b, rc_perm = shuffle (map word_of_nat [0..<unat (e - b)])\<rparr>"

text \<open>\<open>return begin_ + perm_[i % diff_];\<close>\<close>

definition RandomCyclic_call :: "RandomCyclic \<Rightarrow> size_t \<Rightarrow> size_t option" where
  "RandomCyclic_call s i =
     (if st_diff s = 0 then None
      else if unat (i mod st_diff s) < length (rc_perm s)
        then Some (st_begin s + rc_perm s ! unat (i mod st_diff s))
        else None)"

text \<open>A value lies in the disk range \<open>[b, e)\<close>.\<close>

definition in_disk_range :: "size_t \<Rightarrow> size_t \<Rightarrow> size_t option \<Rightarrow> bool" where
  "in_disk_range b e r = (case r of None \<Rightarrow> False | Some v \<Rightarrow> b \<le> v \<and> v < e)"

section \<open>Asynchronous transfer records (thrill/net/dispatcher.hpp)\<close>

text \<open>
  A connection is known to the dispatcher by its address only; \<open>RecvOne\<close> and \<open>SendOne\<close>
  are the connection's, so what they return is an input of the model: the count \<open>r\<close>,
  the value of \<open>errno\<close> after the call and, for a receive, the bytes the call stored.
  The precondition \<open>assert(c.IsValid())\<close> of the public operations is taken as given.
  Sizes and cursors (\<open>size_t\<close>) are natural numbers: a cursor only grows by the count
  of a transfer, which is bounded by the memory the payload occupies.
\<close>

type_synonym Connection = nat
type_synonym byte = "8 word"

text \<open>
  Modelled from the spec: \<open>net::Buffer\<close> (thrill/net/buffer.hpp is not under src/), "a
  simple byte vector with size", owned and handed over by move. A buffer is its bytes,
  \<open>size()\<close> is their number, \<open>Buffer()\<close> is empty, and a buffer that was moved out is
  left empty.
\<close>

type_synonym Buffer = "byte list"

text \<open>
  Modelled from the spec: the pinned blocks (thrill/data/block.hpp and byte\_block.hpp
  are not under src/), buffers whose ownership is tracked, "moved into the dispatcher
  for the duration of a block read/write, returned via callback on completion".
  \<open>data::PinnedByteBlockPtr\<close> is a pointer to a byte block and may be null (the code
  tests \<open>!block_\<close>); a pointer that was moved out is null. \<open>data::PinnedBlock\<close> is a
  range of bytes with \<open>data_begin()\<close> and \<open>size()\<close>.
\<close>

type_synonym ByteBlock = "byte list"
type_synonym PinnedByteBlockPtr = "ByteBlock option"
type_synonym PinnedBlock = "byte list"

record io_result =
  io_ret :: int
  io_errno :: int
  io_bytes :: "byte list"

text \<open>The values of \<open>errno\<close> the handlers test, as Linux numbers them.\<close>

definition EINTR :: int where "EINTR = 4"
definition EAGAIN :: int where "EAGAIN = 11"
definition EPIPE :: int where "EPIPE = 32"
definition ECONNRESET :: int where "ECONNRESET = 104"

text \<open>\<open>Exception(message, errno)\<close>; the text a connection adds to the message is left out.\<close>

datatype Exception = Exception string int

text \<open>
  What a readiness handler does when called: it returns \<open>true\<close> (keep the registration)
  or \<open>false\<close> (drop it), or it throws. \<open>Undefined\<close> stands for the call the C++ gives
  no meaning to: a block reader whose block pointer is null.
\<close>

datatype outcome = Return bool | Throw Exception | Undefined

text \<open>
  A completion callback is a delegate and may be empty (\<open>if (callback_)\<close>), hence an
  option. A read callback receives its payload as an rvalue reference: \<open>cb_takes\<close>
  says whether the callback moves the payload out of the record.
\<close>

datatype callback = Callback (cb_id: nat) (cb_takes: bool)

type_synonym AsyncReadCallback = "callback option"
type_synonym AsyncReadByteBlockCallback = "callback option"
type_synonym AsyncWriteCallback = "nat option"
type_synonym TimerCallback = nat

text \<open>\<open>struct Timer\<close>: the time point in ticks of the steady clock, the timeout in milliseconds.\<close>

record Timer =
  next_timeout :: int
  timeout :: int
  cb :: TimerCallback

text \<open>The record a readiness callback is bound to: its deque and its position there.\<close>

datatype handler =
    ReadBufferAt nat
  | WriteBufferAt nat
  | ReadBlockAt nat
  | WriteBlockAt nat

text \<open>
  The calls the dispatcher makes to its surroundings, in order: timer callbacks (with
  the value returned), completion callbacks (with the payload delivered), the
  registrations with the backend and the backend's wait.
\<close>

datatype event =
    TimerCalled Timer bool
  | ReadDone nat Connection Buffer
  | ReadBlockDone nat Connection PinnedByteBlockPtr
  | WriteDone nat Connection
  | ReadRegistered Connection handler
  | WriteRegistered Connection handler
  | Waited int

text \<open>
  The bytes a receive stored at \<open>data() + pos\<close>. A store past the end of the payload is
  outside the model; the list keeps its length.
\<close>

fun store_bytes :: "byte list \<Rightarrow> nat \<Rightarrow> byte list \<Rightarrow> byte list" where
  "store_bytes buf pos [] = buf"
| "store_bytes buf pos (x # xs) = store_bytes (buf[pos := x]) (Suc pos) xs"

definition received :: "io_result \<Rightarrow> byte list" where
  "received res = take (nat (io_ret res)) (io_bytes res)"

subsection \<open>AsyncReadBuffer\<close>

record AsyncReadBuffer =
  arb_conn :: Connection
  arb_buffer :: Buffer
  arb_size :: nat
  arb_callback :: AsyncReadCallback

text \<open>
  The constructor allocates \<open>buffer_(buffer_size)\<close>; the bytes of the fresh buffer are
  not initialised, zero stands for them.
\<close>

definition AsyncReadBuffer_new ::
  "Connection \<Rightarrow> nat \<Rightarrow> AsyncReadCallback \<Rightarrow> AsyncReadBuffer" where
  "AsyncReadBuffer_new conn buffer_size callback =
     \<lparr>arb_conn = conn, arb_buffer = replicate buffer_size 0, arb_size = 0,
      arb_callback = callback\<rparr>"

text \<open>\<open>if (callback_) callback_(*conn_, std::move(buffer_));\<close>\<close>

definition AsyncReadBuffer_DoCallback :: "AsyncReadBuffer \<Rightarrow> AsyncReadBuffer \<times> event list" where
  "AsyncReadBuffer_DoCallback r =
     (case arb_callback r of
        None \<Rightarrow> (r, [])
      | Some f \<Rightarrow>
          (if cb_takes f then r\<lparr>arb_buffer := []\<rparr> else r,
           [ReadDone (cb_id f) (arb_conn r) (arb_buffer r)]))"

definition AsyncReadBuffer_call ::
  "io_result \<Rightarrow> AsyncReadBuffer \<Rightarrow> outcome \<times> AsyncReadBuffer \<times> event list" where
  "AsyncReadBuffer_call res r =
     (if io_ret res \<le> 0 then
        (if io_errno res = EINTR \<or> io_errno res = EAGAIN then (Return True, r, [])
         else
           let r1 = r\<lparr>arb_size := length (arb_buffer r)\<rparr> in
           if io_errno res = 0 \<or> io_errno res = EPIPE \<or> io_errno res = ECONNRESET then
             (Return False, r1,
              case arb_callback r1 of
                None \<Rightarrow> []
              | Some f \<Rightarrow> [ReadDone (cb_id f) (arb_conn r1) []])
           else
             (Throw (Exception ''AsyncReadBuffer() error in recv() on connection ''
                (io_errno res)), r1, []))
      else
        let r1 = r\<lparr>arb_buffer := store_bytes (arb_buffer r) (arb_size r) (received res),
                    arb_size := arb_size r + nat (io_ret res)\<rparr> in
        if arb_size r1 = length (arb_buffer r1) then
          (let (r2, evs) = AsyncReadBuffer_DoCallback r1 in (Return False, r2, evs))
        else (Return True, r1, []))"

definition AsyncReadBuffer_IsDone :: "AsyncReadBuffer \<Rightarrow> bool" where
  "AsyncReadBuffer_IsDone r = (arb_size r = length (arb_buffer r))"

subsection \<open>AsyncWriteBuffer\<close>

record AsyncWriteBuffer =
  awb_conn :: Connection
  awb_buffer :: Buffer
  awb_size :: nat
  awb_callback :: AsyncWriteCallback

definition AsyncWriteBuffer_new ::
  "Connection \<Rightarrow> Buffer \<Rightarrow> AsyncWriteCallback \<Rightarrow> AsyncWriteBuffer" where
  "AsyncWriteBuffer_new conn buffer callback =
     \<lparr>awb_conn = conn, awb_buffer = buffer, awb_size = 0, awb_callback = callback\<rparr>"

text \<open>\<open>if (callback_) callback_(*conn_);\<close>\<close>

definition AsyncWriteBuffer_DoCallback :: "AsyncWriteBuffer \<Rightarrow> event list" where
  "AsyncWriteBuffer_DoCallback r =
     (case awb_callback r of None \<Rightarrow> [] | Some f \<Rightarrow> [WriteDone f (awb_conn r)])"

definition AsyncWriteBuffer_call ::
  "io_result \<Rightarrow> AsyncWriteBuffer \<Rightarrow> outcome \<times> AsyncWriteBuffer \<times> event list" where
  "AsyncWriteBuffer_call res r =
     (if io_ret res \<le> 0 then
        (if io_errno res = EINTR \<or> io_errno res = EAGAIN then (Return True, r, [])
         else
           let r1 = r\<lparr>awb_size := length (awb_buffer r)\<rparr> in
           if io_errno res = EPIPE then (Return False, r1, AsyncWriteBuffer_DoCallback r1)
           else (Throw (Exception ''AsyncWriteBuffer() error in send'' (io_errno res)), r1, []))
      else
        let r1 = r\<lparr>awb_size := awb_size r + nat (io_ret res)\<rparr> in
        if awb_size r1 = length (awb_buffer r1) then
          (Return False, r1, AsyncWriteBuffer_DoCallback r1)
        else (Return True, r1, []))"

definition AsyncWriteBuffer_IsDone :: "AsyncWriteBuffer \<Rightarrow> bool" where
  "AsyncWriteBuffer_IsDone r = (awb_size r = length (awb_buffer r))"

subsection \<open>AsyncReadByteBlock\<close>

record AsyncReadByteBlock =
  arbb_conn :: Connection
  arbb_block :: PinnedByteBlockPtr
  arbb_pos :: nat
  arbb_size :: nat
  arbb_callback :: AsyncReadByteBlockCallback

definition AsyncReadByteBlock_new ::
  "Connection \<Rightarrow> nat \<Rightarrow> PinnedByteBlockPtr \<Rightarrow> AsyncReadByteBlockCallback
    \<Rightarrow> AsyncReadByteBlock" where
  "AsyncReadByteBlock_new conn sz block callback =
     \<lparr>arbb_conn = conn, arbb_block = block, arbb_pos = 0, arbb_size = sz,
      arbb_callback = callback\<rparr>"

text \<open>\<open>if (callback_) callback_(*conn_, std::move(block_));\<close>\<close>

definition AsyncReadByteBlock_DoCallback ::
  "AsyncReadByteBlock \<Rightarrow> AsyncReadByteBlock \<times> event list" where
  "AsyncReadByteBlock_DoCallback r =
     (case arbb_callback r of
        None \<Rightarrow> (r, [])
      | Some f \<Rightarrow>
          (if cb_takes f then r\<lparr>arbb_block := None\<rparr> else r,
           [ReadBlockDone (cb_id f) (arbb_conn r) (arbb_block r)]))"

definition AsyncReadByteBlock_call ::
  "io_result \<Rightarrow> AsyncReadByteBlock \<Rightarrow> outcome \<times> AsyncReadByteBlock \<times> event list" where
  "AsyncReadByteBlock_call res r =
     (case arbb_block r of
        None \<Rightarrow> (Undefined, r, [])
      | Some blk \<Rightarrow>
          if io_ret res \<le> 0 then
            (if io_errno res = EINTR \<or> io_errno res = EAGAIN then (Return True, r, [])
             else
               let r1 = r\<lparr>arbb_pos := arbb_size r\<rparr> in
               if io_errno res = 0 \<or> io_errno res = EPIPE \<or> io_errno res = ECONNRESET then
                 (let (r2, evs) = AsyncReadByteBlock_DoCallback r1 in (Return False, r2, evs))
               else
                 (Throw (Exception ''AsyncReadBlock() error in recv'' (io_errno res)), r1, []))
          else
            let r1 = r\<lparr>arbb_block := Some (store_bytes blk (arbb_pos r) (received res)),
                        arbb_pos := arbb_pos r + nat (io_ret res)\<rparr> in
            if arbb_pos r1 = arbb_size r1 then
              (let (r2, evs) = AsyncReadByteBlock_DoCallback r1 in (Return False, r2, evs))
            else (Return True, r1, []))"

text \<open>\<open>return !block_ || pos_ == size_;\<close>\<close>

definition AsyncReadByteBlock_IsDone :: "AsyncReadByteBlock \<Rightarrow> bool" where
  "AsyncReadByteBlock_IsDone r = (arbb_block r = None \<or> arbb_pos r = arbb_size r)"

subsection \<open>AsyncWriteBlock\<close>

record AsyncWriteBlock =
  awk_conn :: Connection
  awk_block :: PinnedBlock
  awk_size :: nat
  awk_callback :: AsyncWriteCallback

definition AsyncWriteBlock_new ::
  "Connection \<Rightarrow> PinnedBlock \<Rightarrow> AsyncWriteCallback \<Rightarrow> AsyncWriteBlock" where
  "AsyncWriteBlock_new conn block callback =
     \<lparr>awk_conn = conn, awk_block = block, awk_size = 0, awk_callback = callback\<rparr>"

definition AsyncWriteBlock_DoCallback :: "AsyncWriteBlock \<Rightarrow> event list" where
  "AsyncWriteBlock_DoCallback r =
     (case awk_callback r of None \<Rightarrow> [] | Some f \<Rightarrow> [WriteDone f (awk_conn r)])"

definition AsyncWriteBlock_call ::
  "io_result \<Rightarrow> AsyncWriteBlock \<Rightarrow> outcome \<times> AsyncWriteBlock \<times> event list" where
  "AsyncWriteBlock_call res r =
     (if io_ret res \<le> 0 then
        (if io_errno res = EINTR \<or> io_errno res = EAGAIN then (Return True, r, [])
         else
           let r1 = r\<lparr>awk_size := length (awk_block r)\<rparr> in
           if io_errno res = EPIPE then (Return False, r1, AsyncWriteBlock_DoCallback r1)
           else (Throw (Exception ''AsyncWriteBlock() error in send'' (io_errno res)), r1, []))
      else
        let r1 = r\<lparr>awk_size := awk_size r + nat (io_ret res)\<rparr> in
        if awk_size r1 = length (awk_block r1) then
          (Return False, r1, AsyncWriteBlock_DoCallback r1)
        else (Return True, r1, []))"

definition AsyncWriteBlock_IsDone :: "AsyncWriteBlock \<Rightarrow> bool" where
  "AsyncWriteBlock_IsDone r = (awk_size r = length (awk_block r))"

section \<open>The timer queue\<close>

text \<open>
  \<open>TimerPQ\<close> is a \<open>std::priority_queue\<close> of timers over a vector, ordered by the timers'
  \<open>operator <\<close>. The standard defines \<open>push\<close> as \<open>push_back\<close> then \<open>push_heap\<close>, \<open>pop\<close>
  as \<open>pop_heap\<close> then \<open>pop_back\<close>, and \<open>top\<close> as \<open>front\<close>; the two heap algorithms are
  the standard library's, modelled as libstdc++ writes them (\<open>__push_heap\<close> and
  \<open>__adjust_heap\<close> of bits/stl\_heap.h) over the vector as a list.
\<close>

text \<open>\<open>bool operator < (const Timer& b) const { return next_timeout > b.next_timeout; }\<close>\<close>

definition Timer_less :: "Timer \<Rightarrow> Timer \<Rightarrow> bool" where
  "Timer_less a b = (next_timeout a > next_timeout b)"

text \<open>
  \<open>__push_heap(first, holeIndex, topIndex, value)\<close>: while the hole is below the top
  and its parent is less than the value, the parent moves into the hole; the value
  goes into the last hole.
\<close>

function push_heap_from :: "Timer list \<Rightarrow> nat \<Rightarrow> nat \<Rightarrow> Timer \<Rightarrow> Timer list" where
  "push_heap_from c holeIndex topIndex v =
     (if holeIndex > topIndex \<and> Timer_less (c ! ((holeIndex - 1) div 2)) v
      then push_heap_from (c[holeIndex := c ! ((holeIndex - 1) div 2)])
             ((holeIndex - 1) div 2) topIndex v
      else c[holeIndex := v])"
  by pat_completeness auto
termination
  by (relation "measure (\<lambda>(c, holeIndex, topIndex, v). holeIndex)") auto

declare push_heap_from.simps [simp del]

text \<open>\<open>push_heap(first, last)\<close>: the value is the last element, the hole its place.\<close>

definition push_heap :: "Timer list \<Rightarrow> Timer list" where
  "push_heap c = (if c = [] then c else push_heap_from c (length c - 1) 0 (last c))"

text \<open>
  The loop of \<open>__adjust_heap\<close>: the hole moves down to the larger child (the right one
  unless it is less than the left one) while it has two children. The hole index and
  \<open>secondChild\<close> are equal whenever the loop tests its condition, so one index is kept.
\<close>

function adjust_heap_loop :: "Timer list \<Rightarrow> nat \<Rightarrow> nat \<Rightarrow> Timer list \<times> nat" where
  "adjust_heap_loop c secondChild len =
     (if secondChild < (len - 1) div 2
      then
        let child = 2 * (secondChild + 1);
            child = (if Timer_less (c ! child) (c ! (child - 1)) then child - 1 else child)
        in adjust_heap_loop (c[secondChild := c ! child]) child len
      else (c, secondChild))"
  by pat_completeness auto
termination
  by (relation "measure (\<lambda>(c, secondChild, len). len - secondChild)") auto

declare adjust_heap_loop.simps [simp del]

text \<open>
  \<open>__adjust_heap(first, holeIndex, len, value)\<close>: after the loop, a hole whose only
  child is the last element of an even-sized range takes that child; then the value is
  pushed up from the hole, no higher than where the hole began.
\<close>

definition adjust_heap :: "Timer list \<Rightarrow> nat \<Rightarrow> nat \<Rightarrow> Timer \<Rightarrow> Timer list" where
  "adjust_heap c holeIndex len v =
     (let (c1, secondChild) = adjust_heap_loop c holeIndex len in
      if even len \<and> secondChild = (len - 2) div 2
      then push_heap_from (c1[secondChild := c1 ! (2 * (secondChild + 1) - 1)])
             (2 * (secondChild + 1) - 1) holeIndex v
      else push_heap_from c1 secondChild holeIndex v)"

text \<open>
  \<open>pop_heap(first, last)\<close>: with more than one element, the last one is taken as the
  value, the first one is stored in its place, and the heap of the others is adjusted
  from the root.
\<close>

definition pop_heap :: "Timer list \<Rightarrow> Timer list" where
  "pop_heap c =
     (if length c > 1
      then adjust_heap (c[length c - 1 := c ! 0]) 0 (length c - 1) (c ! (length c - 1))
      else c)"

definition pq_emplace :: "Timer \<Rightarrow> Timer list \<Rightarrow> Timer list" where
  "pq_emplace x c = push_heap (c @ [x])"

definition pq_pop :: "Timer list \<Rightarrow> Timer list" where
  "pq_pop c = butlast (pop_heap c)"

text \<open>\<open>top()\<close> is \<open>c.front()\<close>; the dispatcher calls it on a queue it found non-empty.\<close>

definition pq_top :: "Timer list \<Rightarrow> Timer" where
  "pq_top c = c ! 0"

section \<open>The dispatcher\<close>

text \<open>
  The state of a \<open>Dispatcher\<close>: the termination flag, the timer queue and the four
  deques of transfer records, and \<open>trace\<close>, the calls made to the surroundings so far.
\<close>

record Dispatcher =
  terminate :: bool
  timer_pq :: "Timer list"
  async_read :: "AsyncReadBuffer list"
  async_write :: "AsyncWriteBuffer list"
  async_read_block :: "AsyncReadByteBlock list"
  async_write_block :: "AsyncWriteBlock list"
  trace :: "event list"

definition Dispatcher_new :: Dispatcher where
  "Dispatcher_new =
     \<lparr>terminate = False, timer_pq = [], async_read = [], async_write = [],
      async_read_block = [], async_write_block = [], trace = []\<rparr>"

text \<open>
  Time points count the ticks of \<open>steady_clock\<close>, nanoseconds in libstdc++ and libc++;
  timeouts count milliseconds. \<open>duration_cast\<close> to milliseconds divides, rounding
  towards zero as C++ integer division does. Both counts are signed 64-bit integers in
  C++ (\<open>int64_t\<close>). They are integers here, and a sum or product the code computes
  on them is reduced to 64 bits by \<open>wrap64\<close>, the two's complement wrap-around: C++
  leaves signed overflow undefined, and wrapping is what the compiled addition and
  multiplication do.
\<close>

definition ticks_per_ms :: int where
  "ticks_per_ms = 1000000"

definition wrap64 :: "int \<Rightarrow> int" where
  "wrap64 x = (x + 2 ^ 63) mod 2 ^ 64 - 2 ^ 63"

text \<open>
  \<open>operator +\<close> of a \<open>steady_clock::time_point\<close> and \<open>milliseconds\<close>: the milliseconds are
  converted to the clock's ticks, a multiplication by 1000000, and the ticks are added.
\<close>

definition time_point_plus :: "int \<Rightarrow> int \<Rightarrow> int" where
  "time_point_plus tp ms = wrap64 (tp + wrap64 (ms * ticks_per_ms))"

definition duration_cast_ms :: "int \<Rightarrow> int" where
  "duration_cast_ms ticks =
     (if ticks < 0 then - ((- ticks) div ticks_per_ms) else ticks div ticks_per_ms)"

text \<open>
  \<open>AddTimer(timeout, cb)\<close> emplaces \<open>Timer(steady_clock::now() + timeout, timeout, cb)\<close>;
  \<open>now\<close> is what the clock returns.
\<close>

definition AddTimer :: "int \<Rightarrow> int \<Rightarrow> TimerCallback \<Rightarrow> Dispatcher \<Rightarrow> Dispatcher" where
  "AddTimer now tmo f d =
     d\<lparr>timer_pq :=
         pq_emplace \<lparr>next_timeout = time_point_plus now tmo, timeout = tmo, cb = f\<rparr>
           (timer_pq d)\<rparr>"

text \<open>\<open>AddRead\<close> and \<open>AddWrite\<close> are the backend's (pure virtual here): the call is recorded.\<close>

definition AddRead :: "Connection \<Rightarrow> handler \<Rightarrow> Dispatcher \<Rightarrow> Dispatcher" where
  "AddRead c h d = d\<lparr>trace := trace d @ [ReadRegistered c h]\<rparr>"

definition AddWrite :: "Connection \<Rightarrow> handler \<Rightarrow> Dispatcher \<Rightarrow> Dispatcher" where
  "AddWrite c h d = d\<lparr>trace := trace d @ [WriteRegistered c h]\<rparr>"

text \<open>\<open>AsyncRead(c, n, done_cb)\<close>\<close>

definition AsyncRead :: "Connection \<Rightarrow> nat \<Rightarrow> AsyncReadCallback \<Rightarrow> Dispatcher \<Rightarrow> Dispatcher" where
  "AsyncRead c n done_cb d =
     (if n = 0 then
        (case done_cb of
           None \<Rightarrow> d
         | Some f \<Rightarrow> d\<lparr>trace := trace d @ [ReadDone (cb_id f) c []]\<rparr>)
      else
        let d1 = d\<lparr>async_read := async_read d @ [AsyncReadBuffer_new c n done_cb]\<rparr>
        in AddRead c (ReadBufferAt (length (async_read d1) - 1)) d1)"

text \<open>
  \<open>AsyncRead(c, n, block, done_cb)\<close>: the block pointer is dereferenced at once
  (\<open>block->size()\<close>), so the argument is the block it points to.
\<close>

definition AsyncReadBlock ::
  "Connection \<Rightarrow> nat \<Rightarrow> ByteBlock \<Rightarrow> AsyncReadByteBlockCallback \<Rightarrow> Dispatcher \<Rightarrow> Dispatcher" where
  "AsyncReadBlock c n block done_cb d =
     (if length block = 0 then
        (case done_cb of
           None \<Rightarrow> d
         | Some f \<Rightarrow> d\<lparr>trace := trace d @ [ReadBlockDone (cb_id f) c (Some block)]\<rparr>)
      else
        let d1 = d\<lparr>async_read_block :=
                     async_read_block d @ [AsyncReadByteBlock_new c n (Some block) done_cb]\<rparr>
        in AddRead c (ReadBlockAt (length (async_read_block d1) - 1)) d1)"

text \<open>\<open>AsyncWrite(c, buffer, done_cb)\<close>\<close>

definition AsyncWrite :: "Connection \<Rightarrow> Buffer \<Rightarrow> AsyncWriteCallback \<Rightarrow> Dispatcher \<Rightarrow> Dispatcher" where
  "AsyncWrite c buffer done_cb d =
     (if length buffer = 0 then
        (case done_cb of
           None \<Rightarrow> d
         | Some f \<Rightarrow> d\<lparr>trace := trace d @ [WriteDone f c]\<rparr>)
      else
        let d1 = d\<lparr>async_write := async_write d @ [AsyncWriteBuffer_new c buffer done_cb]\<rparr>
        in AddWrite c (WriteBufferAt (length (async_write d1) - 1)) d1)"

text \<open>\<open>AsyncWrite(c, block, done_cb)\<close>\<close>

definition AsyncWriteBlock ::
  "Connection \<Rightarrow> PinnedBlock \<Rightarrow> AsyncWriteCallback \<Rightarrow> Dispatcher \<Rightarrow> Dispatcher" where
  "AsyncWriteBlock c block done_cb d =
     (if length block = 0 then
        (case done_cb of
           None \<Rightarrow> d
         | Some f \<Rightarrow> d\<lparr>trace := trace d @ [WriteDone f c]\<rparr>)
      else
        let d1 = d\<lparr>async_write_block :=
                     async_write_block d @ [AsyncWriteBlock_new c block done_cb]\<rparr>
        in AddWrite c (WriteBlockAt (length (async_write_block d1) - 1)) d1)"

text \<open>\<open>AsyncWriteCopy\<close> copies its bytes into a fresh \<open>Buffer\<close> and calls \<open>AsyncWrite\<close>.\<close>

definition AsyncWriteCopy ::
  "Connection \<Rightarrow> byte list \<Rightarrow> AsyncWriteCallback \<Rightarrow> Dispatcher \<Rightarrow> Dispatcher" where
  "AsyncWriteCopy c bytes done_cb d = AsyncWrite c bytes done_cb d"

definition Terminate :: "Dispatcher \<Rightarrow> Dispatcher" where
  "Terminate d = d\<lparr>terminate := True\<rparr>"

definition HasAsyncWrites :: "Dispatcher \<Rightarrow> bool" where
  "HasAsyncWrites d = (length (async_write d) \<noteq> 0 \<or> length (async_write_block d) \<noteq> 0)"

subsection \<open>Dispatch\<close>

text \<open>
  A timer callback is code of the caller: each call returns a boolean and may call
  \<open>Terminate()\<close>. The calls of one run are given in order; a run that needs more calls
  than are given has no result (\<open>None\<close>). Callbacks that add timers or transfers while
  the dispatcher runs are outside the model.
\<close>

datatype cb_run = CbRun (cb_returns: bool) (cb_terminates: bool)

text \<open>The condition of the timer loop of \<open>Dispatch()\<close>.\<close>

definition timer_due :: "int \<Rightarrow> Dispatcher \<Rightarrow> bool" where
  "timer_due now d =
     (\<not> terminate d \<and> timer_pq d \<noteq> [] \<and> next_timeout (pq_top (timer_pq d)) \<le> now)"

text \<open>
  The body of the loop: \<open>top.cb()\<close> is called; if it returns true the timer is
  emplaced again at \<open>top.next_timeout + top.timeout\<close>; then the queue is popped.
\<close>

definition fire_timer :: "cb_run \<Rightarrow> Dispatcher \<Rightarrow> Dispatcher" where
  "fire_timer run d =
     (let top = pq_top (timer_pq d);
          d1 = d\<lparr>trace := trace d @ [TimerCalled top (cb_returns run)],
                  terminate := terminate d \<or> cb_terminates run\<rparr>;
          d2 = (if cb_returns run
                then d1\<lparr>timer_pq :=
                       pq_emplace
                         \<lparr>next_timeout = time_point_plus (next_timeout top) (timeout top),
                          timeout = timeout top, cb = cb top\<rparr>
                         (timer_pq d1)\<rparr>
                else d1)
      in d2\<lparr>timer_pq := pq_pop (timer_pq d2)\<rparr>)"

fun drain_timers :: "int \<Rightarrow> cb_run list \<Rightarrow> Dispatcher \<Rightarrow> Dispatcher option" where
  "drain_timers now [] d = (if timer_due now d then None else Some d)"
| "drain_timers now (run # runs) d =
     (if timer_due now d then drain_timers now runs (fire_timer run d) else Some d)"

text \<open>
  \<open>DispatchOne(timeout)\<close> is the backend's wait: it calls the readiness callbacks of
  the connections it finds ready. Those calls are an input: each names the record the
  callback was bound to and what the connection's \<open>RecvOne\<close> or \<open>SendOne\<close> returns. A
  callback bound to a record that is no longer in its deque dangles.
\<close>

type_synonym io_event = "handler \<times> io_result"

datatype status = Normal | Raised Exception | Undefined_behaviour

definition fire_io :: "io_event \<Rightarrow> Dispatcher \<Rightarrow> outcome \<times> Dispatcher" where
  "fire_io ev d =
     (case fst ev of
        ReadBufferAt i \<Rightarrow>
          if i < length (async_read d) then
            (let (out, r, evs) = AsyncReadBuffer_call (snd ev) (async_read d ! i)
             in (out, d\<lparr>async_read := (async_read d)[i := r], trace := trace d @ evs\<rparr>))
          else (Undefined, d)
      | WriteBufferAt i \<Rightarrow>
          if i < length (async_write d) then
            (let (out, r, evs) = AsyncWriteBuffer_call (snd ev) (async_write d ! i)
             in (out, d\<lparr>async_write := (async_write d)[i := r], trace := trace d @ evs\<rparr>))
          else (Undefined, d)
      | ReadBlockAt i \<Rightarrow>
          if i < length (async_read_block d) then
            (let (out, r, evs) = AsyncReadByteBlock_call (snd ev) (async_read_block d ! i)
             in (out, d\<lparr>async_read_block := (async_read_block d)[i := r],
                        trace := trace d @ evs\<rparr>))
          else (Undefined, d)
      | WriteBlockAt i \<Rightarrow>
          if i < length (async_write_block d) then
            (let (out, r, evs) = AsyncWriteBlock_call (snd ev) (async_write_block d ! i)
             in (out, d\<lparr>async_write_block := (async_write_block d)[i := r],
                        trace := trace d @ evs\<rparr>))
          else (Undefined, d))"

fun backend_calls :: "io_event list \<Rightarrow> Dispatcher \<Rightarrow> status \<times> Dispatcher" where
  "backend_calls [] d = (Normal, d)"
| "backend_calls (ev # evs) d =
     (case fire_io ev d of
        (Return keep, d1) \<Rightarrow> backend_calls evs d1
      | (Throw e, d1) \<Rightarrow> (Raised e, d1)
      | (Undefined, d1) \<Rightarrow> (Undefined_behaviour, d1))"

definition DispatchOne :: "int \<Rightarrow> io_event list \<Rightarrow> Dispatcher \<Rightarrow> status \<times> Dispatcher" where
  "DispatchOne tmo io d = backend_calls io (d\<lparr>trace := trace d @ [Waited tmo]\<rparr>)"

text \<open>
  The clean-up at the end of \<open>Dispatch()\<close>: each deque drops its front records while
  they are done.
\<close>

definition reap :: "Dispatcher \<Rightarrow> Dispatcher" where
  "reap d =
     d\<lparr>async_read := dropWhile AsyncReadBuffer_IsDone (async_read d),
       async_write := dropWhile AsyncWriteBuffer_IsDone (async_write d),
       async_read_block := dropWhile AsyncReadByteBlock_IsDone (async_read_block d),
       async_write_block := dropWhile AsyncWriteBlock_IsDone (async_write_block d)\<rparr>"

text \<open>
  \<open>Dispatch()\<close>, with \<open>now\<close> the time the clock returns at its start, \<open>runs\<close> the calls
  of timer callbacks and \<open>io\<close> the calls the backend makes during the wait. An exception
  thrown by a readiness handler leaves \<open>Dispatch()\<close> before the clean-up. The difference
  \<open>top.next_timeout - now\<close> is taken after the timer loop, where the top entry expires
  after \<open>now\<close>: it is positive, and it is not reduced to 64 bits.
\<close>

definition Dispatch ::
  "int \<Rightarrow> cb_run list \<Rightarrow> io_event list \<Rightarrow> Dispatcher \<Rightarrow> (status \<times> Dispatcher) option" where
  "Dispatch now runs io d =
     (case drain_timers now runs d of
        None \<Rightarrow> None
      | Some d1 \<Rightarrow>
          if terminate d1 then Some (Normal, d1)
          else
            let tmo =
              (if timer_pq d1 = [] then 10000
               else
                 let diff = duration_cast_ms (next_timeout (pq_top (timer_pq d1)) - now)
                 in if diff < 1 then 1 else diff)
            in (case DispatchOne tmo io d1 of
                  (Normal, d2) \<Rightarrow> Some (Normal, reap d2)
                | (st, d2) \<Rightarrow> Some (st, d2)))"

text \<open>\<open>Loop()\<close>: \<open>while (!terminate_) Dispatch();\<close> with the inputs of each iteration.\<close>

fun Loop ::
  "(int \<times> cb_run list \<times> io_event list) list \<Rightarrow> Dispatcher \<Rightarrow> (status \<times> Dispatcher) option" where
  "Loop [] d = (if terminate d then Some (Normal, d) else None)"
| "Loop ((now, runs, io) # rest) d =
     (if terminate d then Some (Normal, d)
      else
        (case Dispatch now runs io d of
           None \<Rightarrow> None
         | Some (Normal, d1) \<Rightarrow> Loop rest d1
         | Some (st, d1) \<Rightarrow> Some (st, d1)))"

section \<open>Reading a trace\<close>

text \<open>The timeouts of the backend waits in a trace, in order.\<close>

fun waits :: "event list \<Rightarrow> int list" where
  "waits [] = []"
| "waits (Waited t # es) = t # waits es"
| "waits (e # es) = waits es"

text \<open>
  The completion callbacks one buffer reader makes when its handler is called once for
  each result of \<open>RecvOne\<close> in turn. The calls go on whatever the handler returns, so
  that nothing rests on the backend dropping a registration.
\<close>

fun AsyncReadBuffer_calls :: "io_result list \<Rightarrow> AsyncReadBuffer \<Rightarrow> event list" where
  "AsyncReadBuffer_calls [] r = []"
| "AsyncReadBuffer_calls (res # ress) r =
     (let (out, r1, evs) = AsyncReadBuffer_call res r in evs @ AsyncReadBuffer_calls ress r1)"

text \<open>The timers whose callbacks a trace calls, in order.\<close>

fun timer_calls :: "event list \<Rightarrow> Timer list" where
  "timer_calls [] = []"
| "timer_calls (TimerCalled x b # es) = x # timer_calls es"
| "timer_calls (e # es) = timer_calls es"

section \<open>Properties of the timer queue\<close>

text \<open>
  \<open>std::is_heap\<close> for the timers' order: no parent is less than a child of its, that
  is, no timer expires before its parent in the vector.
\<close>

definition is_heap :: "Timer list \<Rightarrow> bool" where
  "is_heap c = (\<forall>i \<in> {1..<length c}. \<not> Timer_less (c ! ((i - 1) div 2)) (c ! i))"

text \<open>The heap property everywhere but between the hole \<open>h\<close> and its parent.\<close>

definition heap_except :: "nat \<Rightarrow> Timer list \<Rightarrow> bool" where
  "heap_except h c =
     (\<forall>i \<in> {1..<length c}. i \<noteq> h \<longrightarrow> \<not> Timer_less (c ! ((i - 1) div 2)) (c ! i))"

text \<open>The child the loop of \<open>__adjust_heap\<close> moves into the hole \<open>h\<close>.\<close>

definition smaller_child :: "Timer list \<Rightarrow> nat \<Rightarrow> nat" where
  "smaller_child c h =
     (if Timer_less (c ! (2 * (h + 1))) (c ! (2 * (h + 1) - 1)) then 2 * (h + 1) - 1
      else 2 * (h + 1))"

text \<open>The timer emplaced again when a callback returns true.\<close>

definition requeued :: "Timer \<Rightarrow> Timer" where
  "requeued t =
     \<lparr>next_timeout = time_point_plus (next_timeout t) (timeout t),
      timeout = timeout t, cb = cb t\<rparr>"

text \<open>
  A repeating timer is followed by its callback \<open>f\<close>: the entries of \<open>f\<close> in the queue,
  and the entries of \<open>f\<close> whose callback was called.
\<close>

definition pending :: "TimerCallback \<Rightarrow> Dispatcher \<Rightarrow> Timer list" where
  "pending f d = filter (\<lambda>x. cb x = f) (timer_pq d)"

definition fired :: "TimerCallback \<Rightarrow> event list \<Rightarrow> Timer list" where
  "fired f evs = filter (\<lambda>x. cb x = f) (timer_calls evs)"

text \<open>The entry of the \<open>k\<close>-th expiry of a timer added at \<open>t0\<close> with timeout \<open>T\<close>.\<close>

definition scheduled :: "TimerCallback \<Rightarrow> int \<Rightarrow> int \<Rightarrow> nat \<Rightarrow> Timer" where
  "scheduled f t0 T k =
     \<lparr>next_timeout = t0 + int k * (T * ticks_per_ms), timeout = T, cb = f\<rparr>"

text \<open>
  The schedule of \<open>f\<close> has not drifted: its \<open>n\<close> firings so far were those of the
  expiries \<open>t0 + T\<close>, \<open>t0 + 2T\<close>, ..., \<open>t0 + nT\<close>, in this order, and the one entry
  of \<open>f\<close> in the queue expires at \<open>t0 + (n + 1)T\<close>.
\<close>

definition drift_free :: "TimerCallback \<Rightarrow> int \<Rightarrow> int \<Rightarrow> Dispatcher \<Rightarrow> bool" where
  "drift_free f t0 T d =
     (let n = length (fired f (trace d))
      in fired f (trace d) = map (scheduled f t0 T) [1..<Suc n]
         \<and> pending f d = [scheduled f t0 T (Suc n)])"

text \<open>The values of the clock's 64-bit count.\<close>

definition int64 :: "int \<Rightarrow> bool" where
  "int64 x = (- (2 ^ 63) \<le> x \<and> x < 2 ^ 63)"

text \<open>
  The expiry the schedule gives the entry of \<open>f\<close> that waits in the queue after the
  firings so far, \<open>t0 + (n + 1)T\<close>, is a value of the clock's count.
\<close>

definition representable :: "TimerCallback \<Rightarrow> int \<Rightarrow> int \<Rightarrow> Dispatcher \<Rightarrow> bool" where
  "representable f t0 T d =
     int64 (next_timeout (scheduled f t0 T (Suc (length (fired f (trace d))))))"

text \<open>Every call of the callback \<open>f\<close> in the trace returned true.\<close>

fun keeps_returning_true :: "TimerCallback \<Rightarrow> event list \<Rightarrow> bool" where
  "keeps_returning_true f [] = True"
| "keeps_returning_true f (TimerCalled x b # es) =
     ((cb x = f \<longrightarrow> b) \<and> keeps_returning_true f es)"
| "keeps_returning_true f (e # es) = keeps_returning_true f es"

section \<open>Proofs: disk allocation functors\<close>

lemma offset_in_range:
  fixes b e k :: size_t
  assumes "b < e" and "k < e - b"
  shows "b \<le> b + k \<and> b + k < e"
proof -
  have be: "unat b < unat e"
    using assms(1) by (simp add: word_less_nat_alt)
  have d: "unat (e - b) = unat e - unat b"
    using assms(1) by (simp add: unat_sub word_le_nat_alt word_less_nat_alt)
  have k: "unat k < unat e - unat b"
    using assms(2) d by (simp add: word_less_nat_alt)
  have bound: "unat b + unat k < 2 ^ LENGTH(64)"
  proof -
    have "unat b + unat k < unat e" using k be by arith
    moreover have "unat e < 2 ^ LENGTH(64)" by (rule unsigned_less)
    ultimately show ?thesis by arith
  qed
  have s: "unat (b + k) = unat b + unat k"
    using bound by (rule unat_add_lem [THEN iffD1])
  show ?thesis
    using s k be by (simp add: word_le_nat_alt word_less_nat_alt)
qed

lemma mod_in_range:
  fixes b e i :: size_t
  assumes "b < e"
  shows "e - b \<noteq> 0" and "i mod (e - b) < e - b"
proof -
  show nz: "e - b \<noteq> 0" using assms by auto
  have "0 < e - b" using nz by (simp add: word_greater_zero_iff)
  then show "i mod (e - b) < e - b" by (rule word_mod_less_divisor)
qed

lemma Striping_in_range:
  assumes "b < e"
  shows "in_disk_range b e (Striping_call (Striping_new b e) i)"
  using mod_in_range(1) [OF assms] mod_in_range(2) [OF assms, of i]
    offset_in_range [OF assms, of "i mod (e - b)"]
  by (simp add: in_disk_range_def Striping_call_def Striping_new_def)

lemma FullyRandom_in_range:
  assumes "b < e"
  shows "in_disk_range b e (FullyRandom_call (FullyRandom_new b e) rng i)"
  using mod_in_range(1) [OF assms] mod_in_range(2) [OF assms, of rng]
    offset_in_range [OF assms, of "rng mod (e - b)"]
  by (simp add: in_disk_range_def FullyRandom_call_def FullyRandom_new_def Striping_new_def)

lemma SimpleRandom_in_range:
  assumes "b < e"
  shows "\<exists>s. SimpleRandom_new b e rng = Some s \<and> in_disk_range b e (SimpleRandom_call s i)"
  using mod_in_range(1) [OF assms] mod_in_range(2) [OF assms, of "i + rng mod (e - b)"]
    offset_in_range [OF assms, of "(i + rng mod (e - b)) mod (e - b)"]
  by (simp add: in_disk_range_def SimpleRandom_call_def SimpleRandom_new_def)

text \<open>Every entry of a permutation of \<open>0, \<dots>, d - 1\<close> is below \<open>d\<close>.\<close>

lemma shuffled_entry_less:
  fixes d :: size_t
  assumes perm: "mset p = mset (map word_of_nat [0..<unat d])" and j: "j < length p"
  shows "p ! j < d"
proof -
  have "set p = set (map word_of_nat [0..<unat d])"
    using perm by (rule mset_eq_setD)
  then have "p ! j \<in> word_of_nat ` {0..<unat d}"
    using j by (metis nth_mem set_map set_upt)
  then obtain k where k: "k < unat d" and pk: "p ! j = word_of_nat k"
    by auto
  have "k < 2 ^ LENGTH(64)"
    using k unsigned_less [of d] by (rule less_trans)
  then have "unat (word_of_nat k :: size_t) = k"
    by (simp add: unat_of_nat)
  then show ?thesis
    using k pk by (simp add: word_less_nat_alt)
qed

lemma RandomCyclic_in_range:
  assumes be: "b < e" and perm: "\<And>xs. mset (shuffle xs) = mset xs"
  shows "in_disk_range b e (RandomCyclic_call (RandomCyclic_new b e shuffle) i)"
proof -
  let ?ids = "map word_of_nat [0..<unat (e - b)] :: size_t list"
  have len: "length (shuffle ?ids) = unat (e - b)"
    using perm [of ?ids] by (metis length_map length_upt minus_nat.diff_0 size_mset)
  have idx: "unat (i mod (e - b)) < length (shuffle ?ids)"
    using mod_in_range(2) [OF be, of i] len by (simp add: word_less_nat_alt)
  have "shuffle ?ids ! unat (i mod (e - b)) < e - b"
    using perm [of ?ids] idx by (rule shuffled_entry_less)
  then show ?thesis
    using mod_in_range(1) [OF be] idx offset_in_range [OF be]
    by (simp add: in_disk_range_def RandomCyclic_call_def RandomCyclic_new_def)
qed

text \<open>
  Claim C10. Over a disk range \<open>[b, e)\<close> with \<open>e > b\<close>, each functor of the striping
  family maps every index \<open>i\<close> to a disk \<open>v\<close> with \<open>b \<le> v < e\<close>: \<open>Striping\<close>,
  \<open>FullyRandom\<close> (whatever the engine returns), \<open>SimpleRandom\<close> (whatever offset the
  engine gave the constructor) and \<open>RandomCyclic\<close> (whatever permutation the shuffle
  made).
\<close>

theorem allocation_in_disk_range:
  assumes "b < e" and "\<And>xs. mset (shuffle xs) = mset xs"
  shows "in_disk_range b e (Striping_call (Striping_new b e) i)
    \<and> in_disk_range b e (FullyRandom_call (FullyRandom_new b e) rng i)
    \<and> (\<exists>s. SimpleRandom_new b e rng = Some s \<and> in_disk_range b e (SimpleRandom_call s i))
    \<and> in_disk_range b e (RandomCyclic_call (RandomCyclic_new b e shuffle) i)"
  using Striping_in_range [OF assms(1)] FullyRandom_in_range [OF assms(1)]
    SimpleRandom_in_range [OF assms(1)] RandomCyclic_in_range [OF assms]
  by blast

theorem allocation_in_disk_range_witness:
  "(2 :: size_t) < 5
    \<and> in_disk_range 2 5 (Striping_call (Striping_new 2 5) 7)
    \<and> in_disk_range 2 5 (FullyRandom_call (FullyRandom_new 2 5) 16807 7)
    \<and> (\<exists>s. SimpleRandom_new 2 5 16807 = Some s \<and> in_disk_range 2 5 (SimpleRandom_call s 7))
    \<and> in_disk_range 2 5 (RandomCyclic_call (RandomCyclic_new 2 5 rev) 7)
    \<and> Striping_call (Striping_new 2 5) 7 = Some 3
    \<and> RandomCyclic_call (RandomCyclic_new 2 5 rev) 7 = Some 3"
proof -
  have h: "(2 :: size_t) < 5" by simp
  have p: "\<And>xs :: size_t list. mset (rev xs) = mset xs" by simp
  have ids: "[0..<3] = [0, Suc 0, 2]" by (simp add: upt_rec)
  have v: "Striping_call (Striping_new 2 5) 7 = Some 3"
    by (simp add: Striping_call_def Striping_new_def)
  have w: "RandomCyclic_call (RandomCyclic_new 2 5 rev) 7 = Some 3"
    by (simp add: RandomCyclic_call_def RandomCyclic_new_def ids)
  show ?thesis
    using allocation_in_disk_range [OF h p, of 7 16807] h v w by simp
qed

section \<open>Proofs: readiness handlers\<close>

lemmas errno_defs = EINTR_def EAGAIN_def EPIPE_def ECONNRESET_def

text \<open>
  Claim C9. When \<open>RecvOne\<close> or \<open>SendOne\<close> returns a count \<open>r \<le> 0\<close> with \<open>errno\<close> equal
  to \<open>EINTR\<close> or \<open>EAGAIN\<close>, the readiness handler of each of the four kinds of record
  returns true (keep registered), calls no callback and leaves the record as it was:
  cursor, payload and hence \<open>IsDone()\<close> are unchanged. (A block reader whose block
  pointer is null dereferences it before anything else; the record is untouched there
  too.)
\<close>

theorem transient_leaves_record:
  assumes "io_ret res \<le> 0" and "io_errno res = EINTR \<or> io_errno res = EAGAIN"
  shows "AsyncReadBuffer_call res rb = (Return True, rb, [])
    \<and> AsyncWriteBuffer_call res wb = (Return True, wb, [])
    \<and> (arbb_block rk \<noteq> None \<longrightarrow> AsyncReadByteBlock_call res rk = (Return True, rk, []))
    \<and> snd (AsyncReadByteBlock_call res rk) = (rk, [])
    \<and> AsyncWriteBlock_call res wk = (Return True, wk, [])"
  using assms
  by (auto simp: AsyncReadBuffer_call_def AsyncWriteBuffer_call_def
      AsyncReadByteBlock_call_def AsyncWriteBlock_call_def split: option.splits)

theorem transient_leaves_record_witness:
  "io_ret \<lparr>io_ret = - 1, io_errno = EAGAIN, io_bytes = []\<rparr> \<le> 0
   \<and> AsyncReadBuffer_call \<lparr>io_ret = - 1, io_errno = EAGAIN, io_bytes = []\<rparr>
        \<lparr>arb_conn = 7, arb_buffer = [9, 0, 0], arb_size = 1,
         arb_callback = Some (Callback 1 True)\<rparr>
       = (Return True,
          \<lparr>arb_conn = 7, arb_buffer = [9, 0, 0], arb_size = 1,
           arb_callback = Some (Callback 1 True)\<rparr>, [])
   \<and> AsyncWriteBuffer_call \<lparr>io_ret = - 1, io_errno = EAGAIN, io_bytes = []\<rparr>
        (AsyncWriteBuffer_new 7 [1, 2, 3] (Some 2))
       = (Return True, AsyncWriteBuffer_new 7 [1, 2, 3] (Some 2), [])
   \<and> AsyncReadByteBlock_call \<lparr>io_ret = - 1, io_errno = EAGAIN, io_bytes = []\<rparr>
        (AsyncReadByteBlock_new 7 3 (Some [0, 0, 0]) (Some (Callback 3 True)))
       = (Return True, AsyncReadByteBlock_new 7 3 (Some [0, 0, 0]) (Some (Callback 3 True)), [])
   \<and> AsyncWriteBlock_call \<lparr>io_ret = - 1, io_errno = EAGAIN, io_bytes = []\<rparr>
        (AsyncWriteBlock_new 7 [1, 2, 3] (Some 4))
       = (Return True, AsyncWriteBlock_new 7 [1, 2, 3] (Some 4), [])"
  using transient_leaves_record [of "\<lparr>io_ret = - 1, io_errno = EAGAIN, io_bytes = []\<rparr>"
      "\<lparr>arb_conn = 7, arb_buffer = [9, 0, 0], arb_size = 1,
        arb_callback = Some (Callback 1 True)\<rparr>"
      "AsyncWriteBuffer_new 7 [1, 2, 3] (Some 2)"
      "AsyncReadByteBlock_new 7 3 (Some [0, 0, 0]) (Some (Callback 3 True))"
      "AsyncWriteBlock_new 7 [1, 2, 3] (Some 4)"]
  by (simp add: AsyncReadByteBlock_new_def)

lemma AsyncReadBuffer_closure:
  assumes "io_ret res \<le> 0"
    and "io_errno res = 0 \<or> io_errno res = EPIPE \<or> io_errno res = ECONNRESET"
  shows "AsyncReadBuffer_call res rb =
           (Return False, rb\<lparr>arb_size := length (arb_buffer rb)\<rparr>,
            case arb_callback rb of
              None \<Rightarrow> []
            | Some f \<Rightarrow> [ReadDone (cb_id f) (arb_conn rb) []])"
  using assms by (auto simp: AsyncReadBuffer_call_def errno_defs Let_def split: option.splits)

lemma AsyncReadByteBlock_closure:
  assumes "io_ret res \<le> 0"
    and "io_errno res = 0 \<or> io_errno res = EPIPE \<or> io_errno res = ECONNRESET"
    and "arbb_block rk \<noteq> None"
  shows "AsyncReadByteBlock_call res rk =
           (Return False, AsyncReadByteBlock_DoCallback (rk\<lparr>arbb_pos := arbb_size rk\<rparr>))"
  using assms
  by (auto simp: AsyncReadByteBlock_call_def errno_defs Let_def split: prod.splits)

lemma AsyncReadByteBlock_DoCallback_IsDone:
  "arbb_pos r = arbb_size r \<Longrightarrow>
     AsyncReadByteBlock_IsDone (fst (AsyncReadByteBlock_DoCallback r))"
  by (simp add: AsyncReadByteBlock_DoCallback_def AsyncReadByteBlock_IsDone_def
      split: option.splits)

lemma AsyncWriteBuffer_closure:
  assumes "io_ret res \<le> 0"
  shows "io_errno res = EPIPE \<Longrightarrow>
           AsyncWriteBuffer_call res wb =
             (Return False, wb\<lparr>awb_size := length (awb_buffer wb)\<rparr>,
              AsyncWriteBuffer_DoCallback wb)"
    and "io_errno res = 0 \<or> io_errno res = ECONNRESET \<Longrightarrow>
           AsyncWriteBuffer_call res wb =
             (Throw (Exception ''AsyncWriteBuffer() error in send'' (io_errno res)),
              wb\<lparr>awb_size := length (awb_buffer wb)\<rparr>, [])"
  using assms
  by (auto simp: AsyncWriteBuffer_call_def AsyncWriteBuffer_DoCallback_def errno_defs Let_def
      split: option.splits)

lemma AsyncWriteBlock_closure:
  assumes "io_ret res \<le> 0"
  shows "io_errno res = EPIPE \<Longrightarrow>
           AsyncWriteBlock_call res wk =
             (Return False, wk\<lparr>awk_size := length (awk_block wk)\<rparr>,
              AsyncWriteBlock_DoCallback wk)"
    and "io_errno res = 0 \<or> io_errno res = ECONNRESET \<Longrightarrow>
           AsyncWriteBlock_call res wk =
             (Throw (Exception ''AsyncWriteBlock() error in send'' (io_errno res)),
              wk\<lparr>awk_size := length (awk_block wk)\<rparr>, [])"
  using assms
  by (auto simp: AsyncWriteBlock_call_def AsyncWriteBlock_DoCallback_def errno_defs Let_def
      split: option.splits)

text \<open>
  Claim C2, as stated, fails on the write paths: a send that fails with \<open>ECONNRESET\<close>,
  or returns 0 with \<open>errno\<close> 0, makes the write handlers throw, and the completion
  callback is not called.
\<close>

theorem closure_on_write_counterexample:
  "io_ret \<lparr>io_ret = - 1, io_errno = ECONNRESET, io_bytes = []\<rparr> \<le> 0
   \<and> AsyncWriteBuffer_call \<lparr>io_ret = - 1, io_errno = ECONNRESET, io_bytes = []\<rparr>
         (AsyncWriteBuffer_new 7 [1, 2, 3] (Some 1))
       = (Throw (Exception ''AsyncWriteBuffer() error in send'' ECONNRESET),
          \<lparr>awb_conn = 7, awb_buffer = [1, 2, 3], awb_size = 3, awb_callback = Some 1\<rparr>, [])
   \<and> AsyncWriteBlock_call \<lparr>io_ret = 0, io_errno = 0, io_bytes = []\<rparr>
         (AsyncWriteBlock_new 7 [1, 2, 3] (Some 1))
       = (Throw (Exception ''AsyncWriteBlock() error in send'' 0),
          \<lparr>awk_conn = 7, awk_block = [1, 2, 3], awk_size = 3, awk_callback = Some 1\<rparr>, [])"
  by (simp add: AsyncWriteBuffer_call_def AsyncWriteBuffer_new_def AsyncWriteBlock_call_def
      AsyncWriteBlock_new_def errno_defs)

text \<open>
  Claim C2, amended. Let \<open>RecvOne\<close> or \<open>SendOne\<close> return a count \<open>r \<le> 0\<close>.
  On the read paths (buffer read, block read with a block), \<open>errno\<close> 0, \<open>EPIPE\<close> or
  \<open>ECONNRESET\<close> is absorbed: the cursor is set to the total, so \<open>IsDone()\<close> holds, the
  completion callback (if there is one) is called, with an empty buffer for a buffer
  read and with the block for a block read, and the handler returns false
  (deregister). On the write paths only \<open>EPIPE\<close> is absorbed in this way; with \<open>errno\<close>
  0 or \<open>ECONNRESET\<close> the write handlers set the cursor to the total and throw the
  dispatcher's exception without calling the callback.
\<close>

theorem closure_absorbed:
  assumes "io_ret res \<le> 0"
  shows "(io_errno res = 0 \<or> io_errno res = EPIPE \<or> io_errno res = ECONNRESET \<longrightarrow>
           AsyncReadBuffer_call res rb =
             (Return False, rb\<lparr>arb_size := length (arb_buffer rb)\<rparr>,
              case arb_callback rb of
                None \<Rightarrow> []
              | Some f \<Rightarrow> [ReadDone (cb_id f) (arb_conn rb) []])
           \<and> AsyncReadBuffer_IsDone (fst (snd (AsyncReadBuffer_call res rb)))
           \<and> (arbb_block rk \<noteq> None \<longrightarrow>
               AsyncReadByteBlock_call res rk =
                 (Return False,
                  AsyncReadByteBlock_DoCallback (rk\<lparr>arbb_pos := arbb_size rk\<rparr>))
               \<and> AsyncReadByteBlock_IsDone (fst (snd (AsyncReadByteBlock_call res rk)))))
    \<and> (io_errno res = EPIPE \<longrightarrow>
           AsyncWriteBuffer_call res wb =
             (Return False, wb\<lparr>awb_size := length (awb_buffer wb)\<rparr>,
              AsyncWriteBuffer_DoCallback wb)
           \<and> AsyncWriteBuffer_IsDone (fst (snd (AsyncWriteBuffer_call res wb)))
           \<and> AsyncWriteBlock_call res wk =
             (Return False, wk\<lparr>awk_size := length (awk_block wk)\<rparr>,
              AsyncWriteBlock_DoCallback wk)
           \<and> AsyncWriteBlock_IsDone (fst (snd (AsyncWriteBlock_call res wk))))
    \<and> (io_errno res = 0 \<or> io_errno res = ECONNRESET \<longrightarrow>
           AsyncWriteBuffer_call res wb =
             (Throw (Exception ''AsyncWriteBuffer() error in send'' (io_errno res)),
              wb\<lparr>awb_size := length (awb_buffer wb)\<rparr>, [])
           \<and> AsyncWriteBlock_call res wk =
             (Throw (Exception ''AsyncWriteBlock() error in send'' (io_errno res)),
              wk\<lparr>awk_size := length (awk_block wk)\<rparr>, []))"
proof (intro conjI impI)
  assume c: "io_errno res = 0 \<or> io_errno res = EPIPE \<or> io_errno res = ECONNRESET"
  show rb: "AsyncReadBuffer_call res rb =
             (Return False, rb\<lparr>arb_size := length (arb_buffer rb)\<rparr>,
              case arb_callback rb of
                None \<Rightarrow> []
              | Some f \<Rightarrow> [ReadDone (cb_id f) (arb_conn rb) []])"
    using assms c by (rule AsyncReadBuffer_closure)
  show "AsyncReadBuffer_IsDone (fst (snd (AsyncReadBuffer_call res rb)))"
    by (simp add: rb AsyncReadBuffer_IsDone_def)
  assume b: "arbb_block rk \<noteq> None"
  show rk: "AsyncReadByteBlock_call res rk =
      (Return False, AsyncReadByteBlock_DoCallback (rk\<lparr>arbb_pos := arbb_size rk\<rparr>))"
    using assms c b by (rule AsyncReadByteBlock_closure)
  show "AsyncReadByteBlock_IsDone (fst (snd (AsyncReadByteBlock_call res rk)))"
    by (simp add: rk AsyncReadByteBlock_DoCallback_IsDone)
next
  assume c: "io_errno res = EPIPE"
  show wb: "AsyncWriteBuffer_call res wb =
             (Return False, wb\<lparr>awb_size := length (awb_buffer wb)\<rparr>,
              AsyncWriteBuffer_DoCallback wb)"
    using assms c by (rule AsyncWriteBuffer_closure(1))
  show "AsyncWriteBuffer_IsDone (fst (snd (AsyncWriteBuffer_call res wb)))"
    by (simp add: wb AsyncWriteBuffer_IsDone_def)
  show wk: "AsyncWriteBlock_call res wk =
             (Return False, wk\<lparr>awk_size := length (awk_block wk)\<rparr>,
              AsyncWriteBlock_DoCallback wk)"
    using assms c by (rule AsyncWriteBlock_closure(1))
  show "AsyncWriteBlock_IsDone (fst (snd (AsyncWriteBlock_call res wk)))"
    by (simp add: wk AsyncWriteBlock_IsDone_def)
next
  assume c: "io_errno res = 0 \<or> io_errno res = ECONNRESET"
  show "AsyncWriteBuffer_call res wb =
             (Throw (Exception ''AsyncWriteBuffer() error in send'' (io_errno res)),
              wb\<lparr>awb_size := length (awb_buffer wb)\<rparr>, [])"
    using assms c by (rule AsyncWriteBuffer_closure(2))
  show "AsyncWriteBlock_call res wk =
             (Throw (Exception ''AsyncWriteBlock() error in send'' (io_errno res)),
              wk\<lparr>awk_size := length (awk_block wk)\<rparr>, [])"
    using assms c by (rule AsyncWriteBlock_closure(2))
qed

text \<open>
  The theorem at a broken pipe, for records in mid-transfer, and at a reset connection
  for the writers.
\<close>

theorem closure_absorbed_witness:
  "io_ret \<lparr>io_ret = - 1, io_errno = EPIPE, io_bytes = []\<rparr> \<le> 0
   \<and> AsyncReadBuffer_call \<lparr>io_ret = - 1, io_errno = EPIPE, io_bytes = []\<rparr>
        \<lparr>arb_conn = 7, arb_buffer = [9, 0, 0], arb_size = 1,
         arb_callback = Some (Callback 1 True)\<rparr>
       = (Return False,
          \<lparr>arb_conn = 7, arb_buffer = [9, 0, 0], arb_size = 3,
           arb_callback = Some (Callback 1 True)\<rparr>,
          [ReadDone 1 7 []])
   \<and> AsyncReadByteBlock_call \<lparr>io_ret = - 1, io_errno = EPIPE, io_bytes = []\<rparr>
        \<lparr>arbb_conn = 7, arbb_block = Some [9, 0, 0], arbb_pos = 1, arbb_size = 3,
         arbb_callback = Some (Callback 3 True)\<rparr>
       = (Return False,
          \<lparr>arbb_conn = 7, arbb_block = None, arbb_pos = 3, arbb_size = 3,
           arbb_callback = Some (Callback 3 True)\<rparr>,
          [ReadBlockDone 3 7 (Some [9, 0, 0])])
   \<and> AsyncWriteBuffer_call \<lparr>io_ret = - 1, io_errno = EPIPE, io_bytes = []\<rparr>
        \<lparr>awb_conn = 7, awb_buffer = [1, 2, 3], awb_size = 1, awb_callback = Some 2\<rparr>
       = (Return False,
          \<lparr>awb_conn = 7, awb_buffer = [1, 2, 3], awb_size = 3, awb_callback = Some 2\<rparr>,
          [WriteDone 2 7])
   \<and> AsyncWriteBlock_call \<lparr>io_ret = - 1, io_errno = EPIPE, io_bytes = []\<rparr>
        \<lparr>awk_conn = 7, awk_block = [1, 2, 3], awk_size = 1, awk_callback = Some 4\<rparr>
       = (Return False,
          \<lparr>awk_conn = 7, awk_block = [1, 2, 3], awk_size = 3, awk_callback = Some 4\<rparr>,
          [WriteDone 4 7])
   \<and> AsyncWriteBuffer_call \<lparr>io_ret = - 1, io_errno = ECONNRESET, io_bytes = []\<rparr>
        \<lparr>awb_conn = 7, awb_buffer = [1, 2, 3], awb_size = 1, awb_callback = Some 2\<rparr>
       = (Throw (Exception ''AsyncWriteBuffer() error in send'' ECONNRESET),
          \<lparr>awb_conn = 7, awb_buffer = [1, 2, 3], awb_size = 3, awb_callback = Some 2\<rparr>, [])"
  using closure_absorbed [of "\<lparr>io_ret = - 1, io_errno = EPIPE, io_bytes = []\<rparr>"
      "\<lparr>arb_conn = 7, arb_buffer = [9, 0, 0], arb_size = 1,
        arb_callback = Some (Callback 1 True)\<rparr>"
      "\<lparr>arbb_conn = 7, arbb_block = Some [9, 0, 0], arbb_pos = 1, arbb_size = 3,
        arbb_callback = Some (Callback 3 True)\<rparr>"
      "\<lparr>awb_conn = 7, awb_buffer = [1, 2, 3], awb_size = 1, awb_callback = Some 2\<rparr>"
      "\<lparr>awk_conn = 7, awk_block = [1, 2, 3], awk_size = 1, awk_callback = Some 4\<rparr>"]
    closure_absorbed [of "\<lparr>io_ret = - 1, io_errno = ECONNRESET, io_bytes = []\<rparr>"
      rb rk
      "\<lparr>awb_conn = 7, awb_buffer = [1, 2, 3], awb_size = 1, awb_callback = Some 2\<rparr>"
      wk]
  by (simp add: AsyncReadByteBlock_DoCallback_def AsyncWriteBuffer_DoCallback_def
      AsyncWriteBlock_DoCallback_def)

lemma length_store_bytes: "length (store_bytes buf pos xs) = length buf"
  by (induction xs arbitrary: buf pos) simp_all

lemma store_bytes_Nil_iff: "store_bytes buf pos xs = [] \<longleftrightarrow> buf = []"
  using length_store_bytes [of buf pos xs] by (metis length_0_conv)

lemma store_bytes_eq:
  "pos + length xs \<le> length buf \<Longrightarrow>
     store_bytes buf pos xs = take pos buf @ xs @ drop (pos + length xs) buf"
proof (induction xs arbitrary: buf pos)
  case Nil
  then show ?case by simp
next
  case (Cons x xs)
  have p: "pos < length buf" using Cons.prems by simp
  have "store_bytes (buf[pos := x]) (Suc pos) xs =
      take (Suc pos) (buf[pos := x]) @ xs @ drop (Suc pos + length xs) (buf[pos := x])"
    using Cons.prems by (intro Cons.IH) simp
  also have "take (Suc pos) (buf[pos := x]) = take pos buf @ [x]"
    using p by (simp add: take_Suc_conv_app_nth)
  also have "drop (Suc pos + length xs) (buf[pos := x]) = drop (Suc pos + length xs) buf"
    by simp
  finally show ?case by simp
qed

lemma AsyncReadBuffer_call_sizes:
  assumes "length (arb_buffer r) = n \<or> length (arb_buffer r) = 0"
    and "AsyncReadBuffer_call res r = (out, r1, evs)"
  shows "(length (arb_buffer r1) = n \<or> length (arb_buffer r1) = 0)
     \<and> (\<forall>ev \<in> set evs. \<exists>i c b. ev = ReadDone i c b \<and> (length b = n \<or> length b = 0))"
  using assms
  by (auto simp: AsyncReadBuffer_call_def AsyncReadBuffer_DoCallback_def Let_def
      length_store_bytes store_bytes_Nil_iff split: if_splits option.splits)

lemma AsyncReadBuffer_calls_sizes:
  assumes "length (arb_buffer r) = n \<or> length (arb_buffer r) = 0"
    and "ev \<in> set (AsyncReadBuffer_calls ress r)"
  shows "\<exists>i c b. ev = ReadDone i c b \<and> (length b = n \<or> length b = 0)"
  using assms
proof (induction ress arbitrary: r)
  case Nil
  then show ?case by simp
next
  case (Cons res ress)
  obtain out r1 evs where c: "AsyncReadBuffer_call res r = (out, r1, evs)"
    by (cases "AsyncReadBuffer_call res r")
  note s = AsyncReadBuffer_call_sizes [OF Cons.prems(1) c]
  have "ev \<in> set evs \<or> ev \<in> set (AsyncReadBuffer_calls ress r1)"
    using Cons.prems(2) c by simp
  then show ?case
  proof
    assume "ev \<in> set evs"
    then show ?thesis using s by blast
  next
    assume "ev \<in> set (AsyncReadBuffer_calls ress r1)"
    then show ?thesis using s Cons.IH by blast
  qed
qed

text \<open>
  Claim C7. Every buffer a buffer reader created for \<open>n\<close> bytes delivers to its
  completion callback has size \<open>n\<close> or size 0, whatever \<open>RecvOne\<close> returns and however
  often the handler is called. On peer closure the callback receives an empty buffer:
  the bytes read so far stay in the record and are not passed on. A read that fills
  the buffer delivers the bytes received.
\<close>

theorem buffer_read_all_or_nothing:
  "(ReadDone i c' b \<in> set (AsyncReadBuffer_calls ress (AsyncReadBuffer_new c n f))
      \<longrightarrow> length b = n \<or> length b = 0)
   \<and> (io_ret res \<le> 0 \<and> (io_errno res = 0 \<or> io_errno res = EPIPE \<or> io_errno res = ECONNRESET)
      \<longrightarrow> snd (snd (AsyncReadBuffer_call res r)) =
           (case arb_callback r of
              None \<Rightarrow> []
            | Some g \<Rightarrow> [ReadDone (cb_id g) (arb_conn r) []]))
   \<and> (0 < length bs \<longrightarrow>
        AsyncReadBuffer_calls [\<lparr>io_ret = int (length bs), io_errno = e, io_bytes = bs\<rparr>]
          (AsyncReadBuffer_new c (length bs) (Some g)) = [ReadDone (cb_id g) c bs])"
proof (intro conjI impI)
  assume "ReadDone i c' b \<in> set (AsyncReadBuffer_calls ress (AsyncReadBuffer_new c n f))"
  moreover have "length (arb_buffer (AsyncReadBuffer_new c n f)) = n
      \<or> length (arb_buffer (AsyncReadBuffer_new c n f)) = 0"
    by (simp add: AsyncReadBuffer_new_def)
  ultimately show "length b = n \<or> length b = 0"
    using AsyncReadBuffer_calls_sizes by blast
next
  assume "io_ret res \<le> 0
    \<and> (io_errno res = 0 \<or> io_errno res = EPIPE \<or> io_errno res = ECONNRESET)"
  then show "snd (snd (AsyncReadBuffer_call res r)) =
           (case arb_callback r of
              None \<Rightarrow> []
            | Some g \<Rightarrow> [ReadDone (cb_id g) (arb_conn r) []])"
    by (simp add: AsyncReadBuffer_closure)
next
  assume "0 < length bs"
  then show "AsyncReadBuffer_calls [\<lparr>io_ret = int (length bs), io_errno = e, io_bytes = bs\<rparr>]
          (AsyncReadBuffer_new c (length bs) (Some g)) = [ReadDone (cb_id g) c bs]"
    by (simp add: AsyncReadBuffer_call_def AsyncReadBuffer_new_def
        AsyncReadBuffer_DoCallback_def received_def length_store_bytes store_bytes_eq
        Let_def)
qed

theorem buffer_read_all_or_nothing_witness:
  "AsyncReadBuffer_calls
      [\<lparr>io_ret = 1, io_errno = 0, io_bytes = [5]\<rparr>,
       \<lparr>io_ret = 2, io_errno = 0, io_bytes = [6, 7]\<rparr>]
      (AsyncReadBuffer_new 7 3 (Some (Callback 2 True))) = [ReadDone 2 7 [5, 6, 7]]
   \<and> length [5 :: byte, 6, 7] = 3
   \<and> AsyncReadBuffer_calls
      [\<lparr>io_ret = 1, io_errno = 0, io_bytes = [5]\<rparr>,
       \<lparr>io_ret = 0, io_errno = 0, io_bytes = []\<rparr>]
      (AsyncReadBuffer_new 7 3 (Some (Callback 2 True))) = [ReadDone 2 7 []]"
proof -
  have three: "replicate 3 (0 :: byte) = [0, 0, 0]"
    by (simp add: numeral_3_eq_3)
  have a: "AsyncReadBuffer_calls
      [\<lparr>io_ret = 1, io_errno = 0, io_bytes = [5]\<rparr>,
       \<lparr>io_ret = 2, io_errno = 0, io_bytes = [6, 7]\<rparr>]
      (AsyncReadBuffer_new 7 3 (Some (Callback 2 True))) = [ReadDone 2 7 [5, 6, 7]]"
    by (simp add: AsyncReadBuffer_call_def AsyncReadBuffer_new_def
        AsyncReadBuffer_DoCallback_def received_def three)
  have b: "AsyncReadBuffer_calls
      [\<lparr>io_ret = 1, io_errno = 0, io_bytes = [5]\<rparr>,
       \<lparr>io_ret = 0, io_errno = 0, io_bytes = []\<rparr>]
      (AsyncReadBuffer_new 7 3 (Some (Callback 2 True))) = [ReadDone 2 7 []]"
    by (simp add: AsyncReadBuffer_call_def AsyncReadBuffer_new_def
        AsyncReadBuffer_DoCallback_def received_def three errno_defs)
  show ?thesis
    using a b buffer_read_all_or_nothing [of 2 7 "[5, 6, 7]"
        "[\<lparr>io_ret = 1, io_errno = 0, io_bytes = [5]\<rparr>,
          \<lparr>io_ret = 2, io_errno = 0, io_bytes = [6, 7]\<rparr>]" 7 3 "Some (Callback 2 True)"]
    by simp
qed

section \<open>Proofs: the public operations\<close>

text \<open>
  Claim C6, as stated, fails for a buffer of size zero given without a callback:
  \<open>AsyncWrite\<close> returns at once, no write record is enqueued and nothing is registered
  with the backend.
\<close>

theorem AsyncWrite_empty_counterexample:
  "AsyncWrite 7 [] None Dispatcher_new = Dispatcher_new
   \<and> async_write (AsyncWrite 7 [] None Dispatcher_new) = []
   \<and> trace (AsyncWrite 7 [] None Dispatcher_new) = []
   \<and> \<not> HasAsyncWrites (AsyncWrite 7 [] None Dispatcher_new)"
  by (simp add: AsyncWrite_def Dispatcher_new_def HasAsyncWrites_def)

text \<open>
  Claim C6, amended. If the buffer's size is zero, \<open>AsyncWrite(c, buffer, done_cb)\<close>
  calls the callback at once if one is given, and in either case enqueues nothing and
  registers nothing. Otherwise a write record holding the whole buffer (moved in), with
  its cursor at 0, is appended to the write queue and write-readiness is registered for
  it, so \<open>HasAsyncWrites()\<close> holds. The record writes the entire buffer: on a positive
  count its handler completes (callback, deregister) exactly when the cursor reaches the
  buffer's size, and stays registered before that.
\<close>

theorem AsyncWrite_enqueues:
  "(length buffer = 0 \<longrightarrow>
      AsyncWrite c buffer done_cb d =
        (case done_cb of None \<Rightarrow> d | Some f \<Rightarrow> d\<lparr>trace := trace d @ [WriteDone f c]\<rparr>))
   \<and> (length buffer \<noteq> 0 \<longrightarrow>
      AsyncWrite c buffer done_cb d =
        d\<lparr>async_write := async_write d @
             [\<lparr>awb_conn = c, awb_buffer = buffer, awb_size = 0, awb_callback = done_cb\<rparr>],
          trace := trace d @ [WriteRegistered c (WriteBufferAt (length (async_write d)))]\<rparr>
      \<and> HasAsyncWrites (AsyncWrite c buffer done_cb d))
   \<and> (0 < io_ret res \<longrightarrow>
      AsyncWriteBuffer_call res r =
        (if awb_size r + nat (io_ret res) = length (awb_buffer r)
         then (Return False, r\<lparr>awb_size := length (awb_buffer r)\<rparr>,
               AsyncWriteBuffer_DoCallback r)
         else (Return True, r\<lparr>awb_size := awb_size r + nat (io_ret res)\<rparr>, [])))"
  by (auto simp: AsyncWrite_def AddWrite_def AsyncWriteBuffer_new_def HasAsyncWrites_def
      AsyncWriteBuffer_call_def AsyncWriteBuffer_DoCallback_def Let_def split: option.splits)

theorem AsyncWrite_enqueues_witness:
  "AsyncWrite 7 [] (Some 2) Dispatcher_new = Dispatcher_new\<lparr>trace := [WriteDone 2 7]\<rparr>
   \<and> AsyncWrite 7 [1, 2, 3] None Dispatcher_new =
       Dispatcher_new\<lparr>async_write :=
           [\<lparr>awb_conn = 7, awb_buffer = [1, 2, 3], awb_size = 0, awb_callback = None\<rparr>],
         trace := [WriteRegistered 7 (WriteBufferAt 0)]\<rparr>
   \<and> AsyncWriteBuffer_call \<lparr>io_ret = 2, io_errno = 0, io_bytes = []\<rparr>
        \<lparr>awb_conn = 7, awb_buffer = [1, 2, 3], awb_size = 1, awb_callback = Some 2\<rparr>
       = (Return False,
          \<lparr>awb_conn = 7, awb_buffer = [1, 2, 3], awb_size = 3, awb_callback = Some 2\<rparr>,
          [WriteDone 2 7])"
  using AsyncWrite_enqueues [of "[]" 7 "Some 2" Dispatcher_new
      "\<lparr>io_ret = 2, io_errno = 0, io_bytes = []\<rparr>"
      "\<lparr>awb_conn = 7, awb_buffer = [1, 2, 3], awb_size = 1, awb_callback = Some 2\<rparr>"]
    AsyncWrite_enqueues [of "[1, 2, 3]" 7 None Dispatcher_new res r]
  by (simp add: Dispatcher_new_def AsyncWriteBuffer_DoCallback_def)

text \<open>
  Claim C4 at a buffer read whose callback takes the buffer: after the last bytes
  arrive, the callback has received the payload by move, and \<open>IsDone()\<close> is false (the
  cursor is 2, the size of the emptied buffer is 0), so the clean-up of \<open>Dispatch()\<close>
  leaves the record at the front of its queue.
\<close>

theorem buffer_read_moved_out_not_done:
  "AsyncReadBuffer_call \<lparr>io_ret = 2, io_errno = 0, io_bytes = [1, 2]\<rparr>
      (AsyncReadBuffer_new 7 2 (Some (Callback 1 True)))
     = (Return False,
        \<lparr>arb_conn = 7, arb_buffer = [], arb_size = 2, arb_callback = Some (Callback 1 True)\<rparr>,
        [ReadDone 1 7 [1, 2]])
   \<and> \<not> AsyncReadBuffer_IsDone
        \<lparr>arb_conn = 7, arb_buffer = [], arb_size = 2, arb_callback = Some (Callback 1 True)\<rparr>
   \<and> Dispatch 0 [] [(ReadBufferAt 0, \<lparr>io_ret = 2, io_errno = 0, io_bytes = [1, 2]\<rparr>)]
        (AsyncRead 7 2 (Some (Callback 1 True)) Dispatcher_new)
     = Some (Normal,
         Dispatcher_new\<lparr>async_read :=
             [\<lparr>arb_conn = 7, arb_buffer = [], arb_size = 2,
               arb_callback = Some (Callback 1 True)\<rparr>],
           trace := [ReadRegistered 7 (ReadBufferAt 0), Waited 10000, ReadDone 1 7 [1, 2]]\<rparr>)"
  by (simp add: AsyncReadBuffer_call_def AsyncReadBuffer_new_def AsyncReadBuffer_DoCallback_def
      AsyncReadBuffer_IsDone_def received_def Dispatch_def DispatchOne_def fire_io_def
      AsyncRead_def AddRead_def Dispatcher_new_def timer_due_def reap_def Let_def
      numeral_2_eq_2)

text \<open>
  Claim C1 at \<open>AsyncRead(c, 0, block, done_cb)\<close> with a block of three bytes: the
  record is enqueued with cursor 0 and total 0, so \<open>IsDone()\<close> holds from the start. A
  \<open>Dispatch()\<close> during which the connection is not readable removes the record from
  the queue, and its callback has not been called.
\<close>

theorem block_read_zero_reaped_unfired:
  "AsyncReadBlock 7 0 [1, 2, 3] (Some (Callback 1 True)) Dispatcher_new
     = Dispatcher_new\<lparr>async_read_block :=
           [\<lparr>arbb_conn = 7, arbb_block = Some [1, 2, 3], arbb_pos = 0, arbb_size = 0,
             arbb_callback = Some (Callback 1 True)\<rparr>],
         trace := [ReadRegistered 7 (ReadBlockAt 0)]\<rparr>
   \<and> Dispatch 0 [] [] (AsyncReadBlock 7 0 [1, 2, 3] (Some (Callback 1 True)) Dispatcher_new)
     = Some (Normal,
         Dispatcher_new\<lparr>trace := [ReadRegistered 7 (ReadBlockAt 0), Waited 10000]\<rparr>)"
  by (simp add: AsyncReadBlock_def AsyncReadByteBlock_new_def AddRead_def Dispatcher_new_def
      Dispatch_def DispatchOne_def timer_due_def reap_def AsyncReadByteBlock_IsDone_def Let_def)

section \<open>Proofs: the dispatch loop\<close>

lemma waits_append: "waits (a @ b) = waits a @ waits b"
  by (induction a rule: waits.induct) simp_all

lemma trace_fire_timer:
  "trace (fire_timer run d) = trace d @ [TimerCalled (pq_top (timer_pq d)) (cb_returns run)]"
  by (simp add: fire_timer_def Let_def)

lemma waits_drain_timers:
  "drain_timers now runs d = Some d1 \<Longrightarrow> waits (trace d1) = waits (trace d)"
proof (induction runs arbitrary: d)
  case Nil
  then show ?case by (simp split: if_splits)
next
  case (Cons run runs)
  show ?case
  proof (rule case_split [of "timer_due now d"])
    assume due: "timer_due now d"
    then have "drain_timers now runs (fire_timer run d) = Some d1"
      using Cons.prems by simp
    then have "waits (trace d1) = waits (trace (fire_timer run d))"
      by (rule Cons.IH)
    then show ?thesis by (simp add: trace_fire_timer waits_append)
  next
    assume "\<not> timer_due now d"
    then show ?thesis using Cons.prems by simp
  qed
qed

lemma waits_AsyncReadBuffer_call:
  "AsyncReadBuffer_call res r = (out, r1, evs) \<Longrightarrow> waits evs = []"
  by (auto simp: AsyncReadBuffer_call_def AsyncReadBuffer_DoCallback_def Let_def
      split: if_splits option.splits)

lemma waits_AsyncWriteBuffer_call:
  "AsyncWriteBuffer_call res r = (out, r1, evs) \<Longrightarrow> waits evs = []"
  by (auto simp: AsyncWriteBuffer_call_def AsyncWriteBuffer_DoCallback_def Let_def
      split: if_splits option.splits)

lemma waits_AsyncReadByteBlock_call:
  "AsyncReadByteBlock_call res r = (out, r1, evs) \<Longrightarrow> waits evs = []"
  by (auto simp: AsyncReadByteBlock_call_def AsyncReadByteBlock_DoCallback_def Let_def
      split: if_splits option.splits)

lemma waits_AsyncWriteBlock_call:
  "AsyncWriteBlock_call res r = (out, r1, evs) \<Longrightarrow> waits evs = []"
  by (auto simp: AsyncWriteBlock_call_def AsyncWriteBlock_DoCallback_def Let_def
      split: if_splits option.splits)

lemma waits_fire_io:
  "fire_io ev d = (out, d1) \<Longrightarrow> waits (trace d1) = waits (trace d)"
  by (auto simp: fire_io_def waits_append waits_AsyncReadBuffer_call
      waits_AsyncWriteBuffer_call waits_AsyncReadByteBlock_call waits_AsyncWriteBlock_call
      split: handler.splits if_splits prod.splits)

lemma waits_backend_calls:
  "backend_calls io d = (st, d1) \<Longrightarrow> waits (trace d1) = waits (trace d)"
proof (induction io arbitrary: d)
  case Nil
  then show ?case by simp
next
  case (Cons ev io)
  obtain out d' where f: "fire_io ev d = (out, d')"
    by (cases "fire_io ev d")
  have w: "waits (trace d') = waits (trace d)"
    using f by (rule waits_fire_io)
  show ?case
  proof (cases out)
    case (Return keep)
    then have "backend_calls io d' = (st, d1)"
      using Cons.prems f by simp
    then have "waits (trace d1) = waits (trace d')"
      by (rule Cons.IH)
    then show ?thesis using w by simp
  next
    case (Throw e)
    then show ?thesis using Cons.prems f w by simp
  next
    case Undefined
    then show ?thesis using Cons.prems f w by simp
  qed
qed

lemma trace_reap: "trace (reap d) = trace d"
  by (simp add: reap_def)

lemma waits_DispatchOne:
  "DispatchOne tmo io d = (st, d1) \<Longrightarrow> waits (trace d1) = waits (trace d) @ [tmo]"
  unfolding DispatchOne_def
  by (drule waits_backend_calls) (simp add: waits_append)

text \<open>
  Claim C8. Let \<open>d1\<close> be the dispatcher after the due timers were drained. If it is
  terminated, \<open>Dispatch()\<close> returns without waiting. Otherwise it calls \<open>DispatchOne\<close>
  exactly once: with 10000 milliseconds if the timer queue is empty, and else with
  \<open>top.next_timeout - now\<close> in whole milliseconds (\<open>now\<close> as read at the start of
  \<open>Dispatch()\<close>), raised to 1 millisecond if it is less.
\<close>

theorem Dispatch_waits_once:
  assumes "drain_timers now runs d = Some d1"
  shows "\<exists>st d2. Dispatch now runs io d = Some (st, d2)
     \<and> waits (trace d2) = waits (trace d) @
         (if terminate d1 then []
          else [if timer_pq d1 = [] then 10000
                else max 1 (duration_cast_ms (next_timeout (pq_top (timer_pq d1)) - now))])"
proof (rule case_split [of "terminate d1"])
  assume t: "terminate d1"
  then have "Dispatch now runs io d = Some (Normal, d1)"
    using assms by (simp add: Dispatch_def)
  then show ?thesis
    using t waits_drain_timers [OF assms] by simp
next
  assume t: "\<not> terminate d1"
  define diff where "diff = duration_cast_ms (next_timeout (pq_top (timer_pq d1)) - now)"
  define tmo where "tmo = (if timer_pq d1 = [] then 10000 else if diff < 1 then 1 else diff)"
  obtain st d2 where one: "DispatchOne tmo io d1 = (st, d2)"
    by (cases "DispatchOne tmo io d1")
  have w: "waits (trace d2) = waits (trace d) @ [tmo]"
    using waits_DispatchOne [OF one] waits_drain_timers [OF assms] by simp
  have "Dispatch now runs io d =
      (case DispatchOne tmo io d1 of
         (Normal, d2) \<Rightarrow> Some (Normal, reap d2)
       | (st, d2) \<Rightarrow> Some (st, d2))"
    using assms t by (simp add: Dispatch_def tmo_def diff_def Let_def)
  then have "Dispatch now runs io d = Some (st, if st = Normal then reap d2 else d2)"
    using one by (cases st) simp_all
  moreover have "tmo = (if timer_pq d1 = [] then 10000 else max 1 diff)"
    by (simp add: tmo_def max_def)
  ultimately show ?thesis
    using w t by (auto simp: trace_reap diff_def)
qed


lemma pq_emplace_empty: "pq_emplace x [] = [x]"
  by (simp add: pq_emplace_def push_heap_def push_heap_from.simps)

theorem Dispatch_waits_once_witness:
  "drain_timers 2500000 [] (AddTimer 0 5 3 Dispatcher_new) = Some (AddTimer 0 5 3 Dispatcher_new)
   \<and> (\<exists>st d2. Dispatch 2500000 [] [] (AddTimer 0 5 3 Dispatcher_new) = Some (st, d2)
         \<and> waits (trace d2) = [2])
   \<and> (\<exists>st d2. Dispatch 4999999 [] [] (AddTimer 0 5 3 Dispatcher_new) = Some (st, d2)
         \<and> waits (trace d2) = [1])
   \<and> (\<exists>st d2. Dispatch 0 [] [] Dispatcher_new = Some (st, d2)
         \<and> waits (trace d2) = [10000])"
proof -
  let ?d = "AddTimer 0 5 3 Dispatcher_new"
  have pq: "timer_pq ?d = [\<lparr>next_timeout = 5000000, timeout = 5, cb = 3\<rparr>]"
    by (simp add: AddTimer_def Dispatcher_new_def pq_emplace_empty time_point_plus_def
        wrap64_def ticks_per_ms_def)
  have tr: "trace ?d = []" "\<not> terminate ?d"
    by (simp_all add: AddTimer_def Dispatcher_new_def)
  have a: "drain_timers 2500000 [] ?d = Some ?d"
    by (simp add: timer_due_def pq pq_top_def)
  have b: "drain_timers 4999999 [] ?d = Some ?d"
    by (simp add: timer_due_def pq pq_top_def)
  have new: "timer_pq Dispatcher_new = []" "trace Dispatcher_new = []"
      "\<not> terminate Dispatcher_new"
    by (simp_all add: Dispatcher_new_def)
  have c: "drain_timers 0 [] Dispatcher_new = Some Dispatcher_new"
    by (simp add: timer_due_def new)
  have A: "\<exists>st d2. Dispatch 2500000 [] [] ?d = Some (st, d2) \<and> waits (trace d2) = [2]"
    using Dispatch_waits_once [OF a, of "[]"]
    by (simp add: pq tr pq_top_def duration_cast_ms_def ticks_per_ms_def)
  have B: "\<exists>st d2. Dispatch 4999999 [] [] ?d = Some (st, d2) \<and> waits (trace d2) = [1]"
    using Dispatch_waits_once [OF b, of "[]"]
    by (simp add: pq tr pq_top_def duration_cast_ms_def ticks_per_ms_def)
  have C: "\<exists>st d2. Dispatch 0 [] [] Dispatcher_new = Some (st, d2)
      \<and> waits (trace d2) = [10000]"
    using Dispatch_waits_once [OF c, of "[]"] by (simp add: new)
  show ?thesis
    using a A B C by blast
qed

section \<open>Proofs: the timer queue\<close>

lemma is_heap_iff:
  "is_heap c \<longleftrightarrow>
     (\<forall>i. 0 < i \<and> i < length c \<longrightarrow> next_timeout (c ! ((i - 1) div 2)) \<le> next_timeout (c ! i))"
  by (auto simp: is_heap_def Timer_less_def not_less)

lemma heap_except_iff:
  "heap_except h c \<longleftrightarrow>
     (\<forall>i. 0 < i \<and> i < length c \<and> i \<noteq> h \<longrightarrow>
        next_timeout (c ! ((i - 1) div 2)) \<le> next_timeout (c ! i))"
  by (auto simp: heap_except_def Timer_less_def not_less)

lemma parent_less: "0 < i \<Longrightarrow> (i - 1) div 2 < (i :: nat)"
  by arith

lemma push_heap_from_step:
  "h > t \<Longrightarrow> Timer_less (c ! ((h - 1) div 2)) v \<Longrightarrow>
     push_heap_from c h t v =
       push_heap_from (c[h := c ! ((h - 1) div 2)]) ((h - 1) div 2) t v"
  by (subst push_heap_from.simps) simp

lemma push_heap_from_stop:
  "\<not> (h > t \<and> Timer_less (c ! ((h - 1) div 2)) v) \<Longrightarrow> push_heap_from c h t v = c[h := v]"
  by (subst push_heap_from.simps) auto

lemma length_push_heap_from [simp]: "length (push_heap_from c h t v) = length c"
  by (induction c h t v rule: push_heap_from.induct)
    (subst push_heap_from.simps, simp)

lemma mset_push_heap_from:
  "h < length c \<Longrightarrow> mset (push_heap_from c h t v) = mset (c[h := v])"
proof (induction c h t v rule: push_heap_from.induct)
  case (1 c h t v)
  let ?p = "(h - 1) div 2"
  show ?case
  proof (rule case_split [of "h > t \<and> Timer_less (c ! ?p) v"])
    assume go: "h > t \<and> Timer_less (c ! ?p) v"
    then have ph: "?p < h" by arith
    then have pl: "?p < length c" using "1.prems" by simp
    have "mset (push_heap_from c h t v) = mset (push_heap_from (c[h := c ! ?p]) ?p t v)"
      using go by (simp add: push_heap_from_step)
    also have "\<dots> = mset ((c[h := c ! ?p])[?p := v])"
      using go pl by (intro "1.IH") simp_all
    also have "\<dots> = mset (c[h := v])"
      using ph pl "1.prems" by (simp add: mset_update)
    finally show ?thesis .
  next
    assume "\<not> (h > t \<and> Timer_less (c ! ?p) v)"
    then show ?thesis by (simp add: push_heap_from_stop)
  qed
qed

lemma push_heap_from_root:
  "0 < h \<Longrightarrow> h < length c \<Longrightarrow> \<not> Timer_less (c ! 0) v \<Longrightarrow>
     push_heap_from c h 0 v ! 0 = c ! 0"
proof (induction c h "0 :: nat" v rule: push_heap_from.induct)
  case (1 c h v)
  let ?p = "(h - 1) div 2"
  show ?case
  proof (rule case_split [of "h > 0 \<and> Timer_less (c ! ?p) v"])
    assume go: "h > 0 \<and> Timer_less (c ! ?p) v"
    then have p0: "0 < ?p" using "1.prems"(3) by (metis gr0I)
    have ph: "?p < h" using go by arith
    have "push_heap_from c h 0 v ! 0 = push_heap_from (c[h := c ! ?p]) ?p 0 v ! 0"
      using go by (simp add: push_heap_from_step)
    also have "\<dots> = (c[h := c ! ?p]) ! 0"
      using go p0 ph "1.prems" by (intro "1.hyps") simp_all
    also have "\<dots> = c ! 0" using go by simp
    finally show ?thesis .
  next
    assume "\<not> (h > 0 \<and> Timer_less (c ! ?p) v)"
    then show ?thesis using "1.prems" by (simp add: push_heap_from_stop)
  qed
qed

lemma push_heap_from_root_cases:
  "h < length c \<Longrightarrow> push_heap_from c h 0 v ! 0 = c ! 0 \<or> push_heap_from c h 0 v ! 0 = v"
proof (induction c h "0 :: nat" v rule: push_heap_from.induct)
  case (1 c h v)
  let ?p = "(h - 1) div 2"
  show ?case
  proof (rule case_split [of "h > 0 \<and> Timer_less (c ! ?p) v"])
    assume go: "h > 0 \<and> Timer_less (c ! ?p) v"
    have ph: "?p < h" using go by arith
    have e: "push_heap_from c h 0 v = push_heap_from (c[h := c ! ?p]) ?p 0 v"
      using go by (simp add: push_heap_from_step)
    have "push_heap_from (c[h := c ! ?p]) ?p 0 v ! 0 = (c[h := c ! ?p]) ! 0
        \<or> push_heap_from (c[h := c ! ?p]) ?p 0 v ! 0 = v"
      using go ph "1.prems" by (intro "1.hyps") simp_all
    then show ?thesis using e go by simp
  next
    assume stop: "\<not> (h > 0 \<and> Timer_less (c ! ?p) v)"
    have "push_heap_from c h 0 v = c[h := v]"
      using stop by (rule push_heap_from_stop)
    then show ?thesis using "1.prems" by (cases h) simp_all
  qed
qed

lemma push_heap_from_heap:
  assumes "h < length c" and "heap_except h c"
    and "\<forall>j. 0 < j \<and> j < length c \<and> (j - 1) div 2 = h \<longrightarrow>
           next_timeout v \<le> next_timeout (c ! j)
           \<and> (0 < h \<longrightarrow> next_timeout (c ! ((h - 1) div 2)) \<le> next_timeout (c ! j))"
  shows "is_heap (push_heap_from c h 0 v)"
  using assms
proof (induction c h "0 :: nat" v rule: push_heap_from.induct)
  case (1 c h v)
  let ?p = "(h - 1) div 2"
  note he = "1.prems"(2) [unfolded heap_except_iff, rule_format]
  note ch = "1.prems"(3) [rule_format]
  show ?case
  proof (rule case_split [of "h > 0 \<and> Timer_less (c ! ?p) v"])
    assume go: "h > 0 \<and> Timer_less (c ! ?p) v"
    let ?c = "c[h := c ! ?p]"
    have ph: "?p < h" using go by arith
    have vp: "next_timeout v < next_timeout (c ! ?p)"
      using go by (simp add: Timer_less_def)
    have pp: "0 < ?p \<Longrightarrow> next_timeout (c ! ((?p - 1) div 2)) \<le> next_timeout (c ! ?p)"
      using he [of ?p] ph "1.prems"(1) by simp
    have except: "heap_except ?p ?c"
      unfolding heap_except_iff
    proof (intro allI impI)
      fix i assume i: "0 < i \<and> i < length ?c \<and> i \<noteq> ?p"
      show "next_timeout (?c ! ((i - 1) div 2)) \<le> next_timeout (?c ! i)"
      proof (rule case_split [of "i = h"])
        assume "i = h"
        then show ?thesis using ph "1.prems"(1) by simp
      next
        assume ih: "i \<noteq> h"
        show ?thesis
        proof (rule case_split [of "(i - 1) div 2 = h"])
          assume par: "(i - 1) div 2 = h"
          then show ?thesis using ch [of i] i ih go "1.prems"(1) by simp
        next
          assume "(i - 1) div 2 \<noteq> h"
          then show ?thesis using he [of i] i ih by simp
        qed
      qed
    qed
    have children: "\<forall>j. 0 < j \<and> j < length ?c \<and> (j - 1) div 2 = ?p \<longrightarrow>
           next_timeout v \<le> next_timeout (?c ! j)
           \<and> (0 < ?p \<longrightarrow> next_timeout (?c ! ((?p - 1) div 2)) \<le> next_timeout (?c ! j))"
    proof (intro allI impI)
      fix j assume j: "0 < j \<and> j < length ?c \<and> (j - 1) div 2 = ?p"
      have gp: "(?p - 1) div 2 \<noteq> h" using ph by arith
      show "next_timeout v \<le> next_timeout (?c ! j)
           \<and> (0 < ?p \<longrightarrow> next_timeout (?c ! ((?p - 1) div 2)) \<le> next_timeout (?c ! j))"
      proof (rule case_split [of "j = h"])
        assume "j = h"
        then show ?thesis using vp pp gp "1.prems"(1) by simp
      next
        assume jh: "j \<noteq> h"
        have "next_timeout (c ! ?p) \<le> next_timeout (c ! j)"
          using he [of j] j jh by simp
        then show ?thesis using vp pp gp jh by fastforce
      qed
    qed
    have "is_heap (push_heap_from ?c ?p 0 v)"
      using go ph "1.prems"(1) except children by (intro "1.hyps") simp_all
    then show ?thesis using go by (simp add: push_heap_from_step)
  next
    assume stop: "\<not> (h > 0 \<and> Timer_less (c ! ?p) v)"
    have "is_heap (c[h := v])"
      unfolding is_heap_iff
    proof (intro allI impI)
      fix i assume i: "0 < i \<and> i < length (c[h := v])"
      show "next_timeout (c[h := v] ! ((i - 1) div 2)) \<le> next_timeout (c[h := v] ! i)"
      proof (rule case_split [of "i = h"])
        assume ih: "i = h"
        then have "(i - 1) div 2 \<noteq> h" using i by arith
        then show ?thesis using ih i stop by (simp add: Timer_less_def)
      next
        assume ih: "i \<noteq> h"
        show ?thesis
        proof (rule case_split [of "(i - 1) div 2 = h"])
          assume "(i - 1) div 2 = h"
          then show ?thesis using ch [of i] i ih "1.prems"(1) by simp
        next
          assume "(i - 1) div 2 \<noteq> h"
          then show ?thesis using he [of i] i ih by simp
        qed
      qed
    qed
    then show ?thesis using stop by (simp add: push_heap_from_stop)
  qed
qed

lemma is_heap_imp_except: "is_heap c \<Longrightarrow> heap_except h c"
  by (simp add: is_heap_iff heap_except_iff)

lemma heap_top_least:
  assumes "is_heap c"
  shows "i < length c \<Longrightarrow> next_timeout (c ! 0) \<le> next_timeout (c ! i)"
proof (induction i rule: less_induct)
  case (less i)
  show ?case
  proof (cases i)
    case 0
    then show ?thesis by simp
  next
    case (Suc k)
    have p: "(i - 1) div 2 < i" using Suc by arith
    have "next_timeout (c ! 0) \<le> next_timeout (c ! ((i - 1) div 2))"
      using p less.prems by (intro less.IH) simp_all
    also have "\<dots> \<le> next_timeout (c ! i)"
    proof -
      have "0 < i \<and> i < length c" using Suc less.prems by simp
      then show ?thesis using assms unfolding is_heap_iff by blast
    qed
    finally show ?thesis .
  qed
qed

lemma is_heap_pq_emplace:
  assumes "is_heap c"
  shows "is_heap (pq_emplace x c)"
proof -
  have e: "heap_except (length c) (c @ [x])"
    using assms unfolding heap_except_iff is_heap_iff
    by (auto simp: nth_append)
  have "is_heap (push_heap_from (c @ [x]) (length c) 0 x)"
    using e by (intro push_heap_from_heap) auto
  then show ?thesis by (simp add: pq_emplace_def push_heap_def)
qed

lemma mset_pq_emplace: "mset (pq_emplace x c) = add_mset x (mset c)"
  by (simp add: pq_emplace_def push_heap_def mset_push_heap_from)

lemma length_pq_emplace: "length (pq_emplace x c) = Suc (length c)"
  by (simp add: pq_emplace_def push_heap_def)

lemma adjust_heap_loop_step:
  "h < (len - 1) div 2 \<Longrightarrow>
     adjust_heap_loop c h len =
       adjust_heap_loop (c[h := c ! smaller_child c h]) (smaller_child c h) len"
  by (subst adjust_heap_loop.simps) (simp add: smaller_child_def Let_def)

lemma adjust_heap_loop_stop:
  "\<not> h < (len - 1) div 2 \<Longrightarrow> adjust_heap_loop c h len = (c, h)"
  by (subst adjust_heap_loop.simps) simp

lemma smaller_child_cases:
  "smaller_child c h = 2 * h + 1 \<or> smaller_child c h = 2 * h + 2"
  by (simp add: smaller_child_def)

lemma smaller_child_bounds:
  assumes "h < (len - 1) div 2"
  shows "h < smaller_child c h" and "smaller_child c h < len"
    and "(smaller_child c h - 1) div 2 = h"
  using assms smaller_child_cases [of c h] by auto

lemma smaller_child_least:
  assumes "0 < i" and "(i - 1) div 2 = h"
  shows "next_timeout (c ! smaller_child c h) \<le> next_timeout (c ! i)"
proof -
  have "i = 2 * h + 1 \<or> i = 2 * h + 2" using assms by arith
  then show ?thesis
    by (auto simp: smaller_child_def Timer_less_def)
qed

lemma is_heap_move_child_up:
  assumes heap: "is_heap c" and h: "h < (length c - 1) div 2"
  shows "is_heap (c[h := c ! smaller_child c h])"
  unfolding is_heap_iff
proof (intro allI impI)
  let ?s = "smaller_child c h"
  let ?c = "c[h := c ! ?s]"
  note b = smaller_child_bounds [OF h, of c]
  note hp = heap [unfolded is_heap_iff, rule_format]
  fix i assume i: "0 < i \<and> i < length ?c"
  have hl: "h < length c" using h by arith
  show "next_timeout (?c ! ((i - 1) div 2)) \<le> next_timeout (?c ! i)"
  proof (rule case_split [of "i = h"])
    assume ih: "i = h"
    then have ne: "(i - 1) div 2 \<noteq> h" using i by arith
    have "next_timeout (c ! ((h - 1) div 2)) \<le> next_timeout (c ! h)"
      using hp [of h] i ih by simp
    also have "\<dots> \<le> next_timeout (c ! ?s)"
      using hp [of ?s] b by simp
    finally show ?thesis using ih ne hl by simp
  next
    assume ih: "i \<noteq> h"
    show ?thesis
    proof (rule case_split [of "(i - 1) div 2 = h"])
      assume "(i - 1) div 2 = h"
      then show ?thesis using smaller_child_least [of i h c] i ih hl by simp
    next
      assume "(i - 1) div 2 \<noteq> h"
      then show ?thesis using hp [of i] i ih by simp
    qed
  qed
qed

lemma mset_move_hole:
  assumes "h < length c" and "s < length c" and "h \<noteq> s"
  shows "mset ((c[h := c ! s])[s := v]) = mset (c[h := v])"
  using assms by (simp add: mset_update)

lemma adjust_heap_loop_props:
  assumes "adjust_heap_loop c h len = (c1, h1)" and "len = length c" and "h < len"
  shows "length c1 = length c \<and> h1 < len \<and> \<not> h1 < (len - 1) div 2
    \<and> (is_heap c \<longrightarrow> is_heap c1)
    \<and> mset (c1[h1 := v]) = mset (c[h := v])"
  using assms
proof (induction c h len arbitrary: c1 h1 rule: adjust_heap_loop.induct)
  case (1 c h len)
  show ?case
  proof (rule case_split [of "h < (len - 1) div 2"])
    assume go: "h < (len - 1) div 2"
    let ?s = "smaller_child c h"
    let ?c = "c[h := c ! ?s]"
    note b = smaller_child_bounds [OF go, of c]
    have sdef: "?s = (if Timer_less (c ! (2 * (h + 1))) (c ! (2 * (h + 1) - 1))
        then 2 * (h + 1) - 1 else 2 * (h + 1))"
      by (simp add: smaller_child_def)
    have rec: "adjust_heap_loop ?c ?s len = (c1, h1)"
      using "1.prems"(1) go by (simp add: adjust_heap_loop_step)
    have ih: "length c1 = length ?c \<and> h1 < len \<and> \<not> h1 < (len - 1) div 2
      \<and> (is_heap ?c \<longrightarrow> is_heap c1)
      \<and> mset (c1[h1 := v]) = mset (?c[?s := v])"
      using go rec "1.prems"(2) b(2) sdef
      by (intro "1.IH" [of "2 * (h + 1)" ?s]) simp_all
    have m: "mset (?c[?s := v]) = mset (c[h := v])"
      using "1.prems" b by (intro mset_move_hole) simp_all
    have hp: "is_heap c \<Longrightarrow> is_heap ?c"
      using go "1.prems"(2) by (intro is_heap_move_child_up) simp_all
    show ?thesis using ih m hp by simp
  next
    assume stop: "\<not> h < (len - 1) div 2"
    then have "c1 = c \<and> h1 = h"
      using "1.prems"(1) by (simp add: adjust_heap_loop_stop)
    then show ?thesis using stop "1.prems" by simp
  qed
qed

lemma leaf_hole_heap:
  assumes "is_heap c" and "h < length c" and "length c \<le> 2 * h + 1"
  shows "is_heap (push_heap_from c h 0 v)"
proof -
  have "\<forall>j. 0 < j \<and> j < length c \<and> (j - 1) div 2 = h \<longrightarrow>
           next_timeout v \<le> next_timeout (c ! j)
           \<and> (0 < h \<longrightarrow> next_timeout (c ! ((h - 1) div 2)) \<le> next_timeout (c ! j))"
    using assms(3) by auto
  then show ?thesis
    using assms(1,2) by (intro push_heap_from_heap is_heap_imp_except)
qed

lemma adjust_heap_last_child:
  "adjust_heap_loop c h len = (c1, h1) \<Longrightarrow> even len \<and> h1 = (len - 2) div 2 \<Longrightarrow>
     adjust_heap c h len v =
       push_heap_from (c1[h1 := c1 ! (2 * (h1 + 1) - 1)]) (2 * (h1 + 1) - 1) h v"
  by (simp add: adjust_heap_def)

lemma adjust_heap_no_child:
  "adjust_heap_loop c h len = (c1, h1) \<Longrightarrow> \<not> (even len \<and> h1 = (len - 2) div 2) \<Longrightarrow>
     adjust_heap c h len v = push_heap_from c1 h1 h v"
  by (auto simp: adjust_heap_def)

lemma adjust_heap_props:
  assumes "c \<noteq> []"
  shows "length (adjust_heap c 0 (length c) v) = length c
    \<and> (is_heap c \<longrightarrow> is_heap (adjust_heap c 0 (length c) v))
    \<and> mset (adjust_heap c 0 (length c) v) = mset (c[0 := v])"
proof -
  let ?len = "length c"
  obtain c1 h1 where loop: "adjust_heap_loop c 0 ?len = (c1, h1)"
    by (cases "adjust_heap_loop c 0 ?len")
  have len0: "0 < ?len" using assms by simp
  note props = adjust_heap_loop_props [OF loop refl len0, of v]
  have l1: "length c1 = ?len" and h1: "h1 < ?len" and bottom: "\<not> h1 < (?len - 1) div 2"
    and m1: "mset (c1[h1 := v]) = mset (c[0 := v])"
    using props by simp_all
  have hp1: "is_heap c \<Longrightarrow> is_heap c1" using props by simp
  show ?thesis
  proof (rule case_split [of "even ?len \<and> h1 = (?len - 2) div 2"])
    assume one: "even ?len \<and> h1 = (?len - 2) div 2"
    let ?k = "2 * (h1 + 1) - 1"
    let ?c2 = "c1[h1 := c1 ! ?k]"
    have two: "2 \<le> ?len" using one len0 by presburger
    have k: "?k = ?len - 1" "h1 < ?k" "?k < ?len"
      using one two by presburger+
    have res: "adjust_heap c 0 ?len v = push_heap_from ?c2 ?k 0 v"
      using loop one by (rule adjust_heap_last_child)
    have m2: "mset (?c2[?k := v]) = mset (c1[h1 := v])"
      using k l1 h1 by (intro mset_move_hole) simp_all
    have hp2: "is_heap ?c2" if hp: "is_heap c1"
      unfolding is_heap_iff
    proof (intro allI impI)
      note hp' = hp [unfolded is_heap_iff, rule_format]
      fix i assume i: "0 < i \<and> i < length ?c2"
      show "next_timeout (?c2 ! ((i - 1) div 2)) \<le> next_timeout (?c2 ! i)"
      proof (rule case_split [of "i = h1"])
        assume ih: "i = h1"
        then have ne: "(i - 1) div 2 \<noteq> h1" using i by arith
        have "next_timeout (c1 ! ((h1 - 1) div 2)) \<le> next_timeout (c1 ! h1)"
          using hp' [of h1] i ih by simp
        also have "\<dots> \<le> next_timeout (c1 ! ?k)"
          using hp' [of ?k] k l1 by simp
        finally show ?thesis using ih ne h1 l1 by simp
      next
        assume ih: "i \<noteq> h1"
        show ?thesis
        proof (rule case_split [of "(i - 1) div 2 = h1"])
          assume par: "(i - 1) div 2 = h1"
          then have "i = ?k" using i k l1 by auto
          then show ?thesis using par h1 l1 ih by simp
        next
          assume "(i - 1) div 2 \<noteq> h1"
          then show ?thesis using hp' [of i] i ih by simp
        qed
      qed
    qed
    have "is_heap (push_heap_from ?c2 ?k 0 v)" if "is_heap c"
      using hp2 [OF hp1 [OF that]] k l1 by (intro leaf_hole_heap) simp_all
    moreover have "mset (push_heap_from ?c2 ?k 0 v) = mset (c[0 := v])"
      using k l1 m1 m2 by (simp add: mset_push_heap_from)
    ultimately show ?thesis using res l1 by simp
  next
    assume none: "\<not> (even ?len \<and> h1 = (?len - 2) div 2)"
    have res: "adjust_heap c 0 ?len v = push_heap_from c1 h1 0 v"
      using loop none by (rule adjust_heap_no_child)
    have leaf: "length c1 \<le> 2 * h1 + 1"
      using none bottom l1 len0 by presburger
    have "is_heap (push_heap_from c1 h1 0 v)" if "is_heap c"
      using hp1 [OF that] h1 l1 leaf by (intro leaf_hole_heap) simp_all
    moreover have "mset (push_heap_from c1 h1 0 v) = mset (c[0 := v])"
      using h1 l1 m1 by (simp add: mset_push_heap_from)
    ultimately show ?thesis using res l1 by simp
  qed
qed

text \<open>The heap algorithms leave the elements behind the range alone.\<close>

lemma push_heap_from_append:
  "h < length xs \<Longrightarrow> push_heap_from (xs @ ys) h t v = push_heap_from xs h t v @ ys"
proof (induction xs h t v rule: push_heap_from.induct)
  case (1 xs h t v)
  let ?p = "(h - 1) div 2"
  show ?case
  proof (rule case_split [of "h > t \<and> Timer_less (xs ! ?p) v"])
    assume go: "h > t \<and> Timer_less (xs ! ?p) v"
    then have ph: "?p < h" by arith
    then have pl: "?p < length xs" using "1.prems" by simp
    have go': "h > t \<and> Timer_less ((xs @ ys) ! ?p) v"
      using go pl by (simp add: nth_append)
    have "push_heap_from (xs @ ys) h t v =
        push_heap_from ((xs @ ys)[h := (xs @ ys) ! ?p]) ?p t v"
      using go' by (simp add: push_heap_from_step)
    also have "(xs @ ys)[h := (xs @ ys) ! ?p] = xs[h := xs ! ?p] @ ys"
      using pl "1.prems" by (simp add: nth_append list_update_append)
    also have "push_heap_from (xs[h := xs ! ?p] @ ys) ?p t v =
        push_heap_from (xs[h := xs ! ?p]) ?p t v @ ys"
      using go pl by (intro "1.IH") simp_all
    finally show ?thesis using go by (simp add: push_heap_from_step)
  next
    assume stop: "\<not> (h > t \<and> Timer_less (xs ! ?p) v)"
    have "?p < length xs" using "1.prems" by arith
    then have "\<not> (h > t \<and> Timer_less ((xs @ ys) ! ?p) v)"
      using stop by (simp add: nth_append)
    then show ?thesis
      using stop "1.prems" by (simp add: push_heap_from_stop list_update_append)
  qed
qed

lemma adjust_heap_loop_append:
  assumes "adjust_heap_loop xs h len = (c1, h1)" and "len = length xs" and "h < len"
  shows "adjust_heap_loop (xs @ ys) h len = (c1 @ ys, h1)"
  using assms
proof (induction xs h len arbitrary: c1 h1 rule: adjust_heap_loop.induct)
  case (1 xs h len)
  show ?case
  proof (rule case_split [of "h < (len - 1) div 2"])
    assume go: "h < (len - 1) div 2"
    let ?s = "smaller_child xs h"
    note b = smaller_child_bounds [OF go, of xs]
    have in_range: "2 * (h + 1) < length xs" "2 * (h + 1) - 1 < length xs"
      using go "1.prems"(2) by auto
    have s: "smaller_child (xs @ ys) h = ?s"
      using in_range by (simp add: smaller_child_def nth_append)
    have sdef: "?s = (if Timer_less (xs ! (2 * (h + 1))) (xs ! (2 * (h + 1) - 1))
        then 2 * (h + 1) - 1 else 2 * (h + 1))"
      by (simp add: smaller_child_def)
    have rec: "adjust_heap_loop (xs[h := xs ! ?s]) ?s len = (c1, h1)"
      using "1.prems"(1) go by (simp add: adjust_heap_loop_step)
    have "adjust_heap_loop (xs[h := xs ! ?s] @ ys) ?s len = (c1 @ ys, h1)"
      using go rec "1.prems"(2) b(2) sdef
      by (intro "1.IH" [of "2 * (h + 1)" ?s]) simp_all
    moreover have "(xs @ ys)[h := (xs @ ys) ! ?s] = xs[h := xs ! ?s] @ ys"
      using b(2) "1.prems"(2,3) by (simp add: nth_append list_update_append)
    ultimately show ?thesis
      using go s by (simp add: adjust_heap_loop_step)
  next
    assume stop: "\<not> h < (len - 1) div 2"
    then show ?thesis using "1.prems"(1) by (simp add: adjust_heap_loop_stop)
  qed
qed

lemma adjust_heap_append:
  assumes "xs \<noteq> []"
  shows "adjust_heap (xs @ ys) 0 (length xs) v = adjust_heap xs 0 (length xs) v @ ys"
proof -
  let ?len = "length xs"
  obtain c1 h1 where loop: "adjust_heap_loop xs 0 ?len = (c1, h1)"
    by (cases "adjust_heap_loop xs 0 ?len")
  have len0: "0 < ?len" using assms by simp
  note props = adjust_heap_loop_props [OF loop refl len0, of v]
  have l1: "length c1 = ?len" and h1: "h1 < ?len" using props by simp_all
  have loop': "adjust_heap_loop (xs @ ys) 0 ?len = (c1 @ ys, h1)"
    using loop refl len0 by (rule adjust_heap_loop_append)
  show ?thesis
  proof (rule case_split [of "even ?len \<and> h1 = (?len - 2) div 2"])
    assume one: "even ?len \<and> h1 = (?len - 2) div 2"
    let ?k = "2 * (h1 + 1) - 1"
    have two: "2 \<le> ?len" using one len0 by presburger
    have k: "?k < ?len" using one two by presburger
    have "(c1 @ ys)[h1 := (c1 @ ys) ! ?k] = c1[h1 := c1 ! ?k] @ ys"
      using k h1 l1 by (simp add: nth_append list_update_append)
    then show ?thesis
      using k l1
      by (simp add: adjust_heap_last_child [OF loop one] adjust_heap_last_child [OF loop' one]
          push_heap_from_append)
  next
    assume none: "\<not> (even ?len \<and> h1 = (?len - 2) div 2)"
    show ?thesis
      using h1 l1
      by (simp add: adjust_heap_no_child [OF loop none] adjust_heap_no_child [OF loop' none]
          push_heap_from_append)
  qed
qed

lemma pq_pop_eq:
  assumes "1 < length c"
  shows "pq_pop c = adjust_heap (butlast c) 0 (length (butlast c)) (last c)"
proof -
  have ne: "butlast c \<noteq> []" using assms by (cases c) auto
  have c: "c = butlast c @ [last c]" using assms by (cases c) auto
  have "c[length c - 1 := c ! 0] = butlast c @ [c ! 0]"
    using assms by (subst c) (simp add: list_update_append)
  moreover have "c ! (length c - 1) = last c"
    using ne by (cases c) (simp_all add: last_conv_nth)
  ultimately have "pop_heap c = adjust_heap (butlast c @ [c ! 0]) 0 (length (butlast c)) (last c)"
    using assms by (simp add: pop_heap_def)
  also have "\<dots> = adjust_heap (butlast c) 0 (length (butlast c)) (last c) @ [c ! 0]"
    using ne by (rule adjust_heap_append)
  finally show ?thesis by (simp add: pq_pop_def)
qed

lemma pq_pop_short: "length c \<le> 1 \<Longrightarrow> pq_pop c = []"
  by (cases c) (simp_all add: pq_pop_def pop_heap_def)

lemma is_heap_butlast: "is_heap c \<Longrightarrow> is_heap (butlast c)"
  unfolding is_heap_iff
  by (auto simp: nth_butlast)

lemma is_heap_pq_pop:
  assumes "is_heap c"
  shows "is_heap (pq_pop c)"
proof (rule case_split [of "1 < length c"])
  assume l: "1 < length c"
  then have ne: "butlast c \<noteq> []" by (cases c) auto
  show ?thesis
    using adjust_heap_props [OF ne, of "last c"] is_heap_butlast [OF assms]
    by (simp add: pq_pop_eq [OF l])
next
  assume "\<not> 1 < length c"
  then show ?thesis by (simp add: pq_pop_short is_heap_def)
qed

lemma mset_pq_pop:
  assumes "c \<noteq> []"
  shows "mset (pq_pop c) = mset c - {#c ! 0#}"
proof (rule case_split [of "1 < length c"])
  assume l: "1 < length c"
  then have ne: "butlast c \<noteq> []" by (cases c) auto
  have "mset c = mset (butlast c @ [last c])"
    using assms by simp
  then have c: "mset c = add_mset (last c) (mset (butlast c))"
    by simp
  have pos: "0 < length (butlast c)" using l by simp
  have b0: "butlast c ! 0 = c ! 0" using l by (simp add: nth_butlast)
  have "mset (pq_pop c) = mset ((butlast c)[0 := last c])"
    using adjust_heap_props [OF ne, of "last c"] by (simp add: pq_pop_eq [OF l])
  also have "\<dots> = add_mset (last c) (mset (butlast c) - {#c ! 0#})"
    using mset_update [OF pos, of "last c"] b0 by simp
  also have "\<dots> = mset c - {#c ! 0#}"
  proof -
    have "c ! 0 \<in># mset (butlast c)"
      using ne b0 by (metis length_greater_0_conv nth_mem set_mset_mset)
    then show ?thesis using c by simp
  qed
  finally show ?thesis .
next
  assume "\<not> 1 < length c"
  then obtain x where "c = [x]" using assms by (cases c) auto
  then show ?thesis by (simp add: pq_pop_short)
qed

section \<open>Proofs: the timer loop\<close>

lemma timer_calls_append: "timer_calls (a @ b) = timer_calls a @ timer_calls b"
  by (induction a rule: timer_calls.induct) simp_all

lemma pq_emplace_top:
  assumes "c \<noteq> []" and "\<not> Timer_less (c ! 0) x"
  shows "pq_emplace x c ! 0 = c ! 0"
proof -
  have "push_heap_from (c @ [x]) (length c) 0 x ! 0 = (c @ [x]) ! 0"
    using assms by (intro push_heap_from_root) (simp_all add: nth_append)
  then show ?thesis using assms by (simp add: pq_emplace_def push_heap_def nth_append)
qed

lemma pq_emplace_top_cases:
  assumes "c \<noteq> []"
  shows "pq_emplace x c ! 0 = c ! 0 \<or> pq_emplace x c ! 0 = x"
proof -
  have "push_heap_from (c @ [x]) (length c) 0 x ! 0 = (c @ [x]) ! 0
      \<or> push_heap_from (c @ [x]) (length c) 0 x ! 0 = x"
    by (intro push_heap_from_root_cases) simp
  then show ?thesis using assms by (simp add: pq_emplace_def push_heap_def nth_append)
qed

lemma pq_emplace_not_empty: "pq_emplace x c \<noteq> []"
  using length_pq_emplace [of x c] by auto

lemma heap_top_least_set:
  assumes "is_heap c" and "y \<in> set c"
  shows "next_timeout (c ! 0) \<le> next_timeout (y :: Timer)"
proof -
  obtain i where "i < length c" and "c ! i = y"
    using assms(2) by (auto simp: in_set_conv_nth)
  then show ?thesis using heap_top_least [OF assms(1), of i] by simp
qed

text \<open>What one turn of the timer loop does to the queue, as multisets.\<close>

lemma timer_pq_fire_timer:
  "timer_pq (fire_timer run d) =
     pq_pop (if cb_returns run then pq_emplace (requeued (pq_top (timer_pq d))) (timer_pq d)
             else timer_pq d)"
  by (simp add: fire_timer_def requeued_def Let_def)

lemma terminate_fire_timer:
  "terminate (fire_timer run d) = (terminate d \<or> cb_terminates run)"
  by (simp add: fire_timer_def Let_def)

lemma is_heap_fire_timer:
  "is_heap (timer_pq d) \<Longrightarrow> is_heap (timer_pq (fire_timer run d))"
  by (simp add: timer_pq_fire_timer is_heap_pq_pop is_heap_pq_emplace)

lemma fire_timer_lower_bound:
  assumes heap: "is_heap (timer_pq d)" and ne: "timer_pq d \<noteq> []"
    and x: "x \<in> set (timer_pq (fire_timer run d))"
  shows "next_timeout (pq_top (timer_pq d)) \<le> next_timeout x"
proof -
  let ?pq = "timer_pq d"
  let ?top = "pq_top ?pq"
  have least: "next_timeout ?top \<le> next_timeout y" if "y \<in> set ?pq" for y
    using that heap_top_least_set [OF heap] by (simp add: pq_top_def)
  show ?thesis
  proof (rule case_split [of "cb_returns run"])
    assume "\<not> cb_returns run"
    then have "x \<in># mset ?pq - {#?pq ! 0#}"
      using x ne by (simp add: timer_pq_fire_timer mset_pq_pop [symmetric])
    then have "x \<in> set ?pq" by (metis in_diffD set_mset_mset)
    then show ?thesis by (rule least)
  next
    assume ret: "cb_returns run"
    let ?new = "requeued ?top"
    let ?pq2 = "pq_emplace ?new ?pq"
    let ?r = "?pq2 ! 0"
    have heap2: "is_heap ?pq2" using heap by (rule is_heap_pq_emplace)
    have m2: "mset ?pq2 = add_mset ?new (mset ?pq)" by (rule mset_pq_emplace)
    have xin: "x \<in># add_mset ?new (mset ?pq) - {#?r#}"
      using x ret pq_emplace_not_empty [of ?new ?pq]
      by (simp add: timer_pq_fire_timer mset_pq_pop [symmetric] m2 [symmetric])
    show ?thesis
    proof (rule case_split [of "x \<in> set ?pq"])
      assume "x \<in> set ?pq"
      then show ?thesis by (rule least)
    next
      assume notin: "x \<notin> set ?pq"
      have "x \<in># add_mset ?new (mset ?pq)" using xin by (rule in_diffD)
      then have xnew: "x = ?new" using notin by simp
      show ?thesis
      proof (rule ccontr)
        assume "\<not> next_timeout ?top \<le> next_timeout x"
        then have lt: "next_timeout ?new < next_timeout ?top" using xnew by simp
        have "?new \<in> set ?pq2" using m2 by (metis set_mset_mset union_single_eq_member)
        then have "next_timeout ?r \<le> next_timeout ?new"
          by (rule heap_top_least_set [OF heap2])
        then have rlt: "next_timeout ?r < next_timeout ?top" using lt by simp
        have "?r \<in> set ?pq2" using pq_emplace_not_empty [of ?new ?pq] by simp
        then have "?r \<in># add_mset ?new (mset ?pq)" using m2 by (metis set_mset_mset)
        then have "?r = ?new \<or> ?r \<in> set ?pq" by auto
        then have "?r = ?new" using least rlt by fastforce
        then have "x \<in># mset ?pq" using xin by simp
        then show False using notin by simp
      qed
    qed
  qed
qed

lemma drain_timers_sorted:
  assumes "drain_timers now runs d = Some d1" and "is_heap (timer_pq d)"
    and "\<forall>x \<in> set (timer_pq d). m \<le> next_timeout x"
  shows "\<exists>evs. trace d1 = trace d @ evs
     \<and> sorted (map next_timeout (timer_calls evs))
     \<and> (\<forall>x \<in> set (timer_calls evs). m \<le> next_timeout x)
     \<and> is_heap (timer_pq d1)"
  using assms
proof (induction runs arbitrary: d m)
  case Nil
  then show ?case by (simp split: if_splits)
next
  case (Cons run runs)
  show ?case
  proof (rule case_split [of "timer_due now d"])
    assume due: "timer_due now d"
    let ?top = "pq_top (timer_pq d)"
    let ?d = "fire_timer run d"
    have ne: "timer_pq d \<noteq> []" using due by (simp add: timer_due_def)
    have top: "m \<le> next_timeout ?top"
      using Cons.prems(3) ne by (simp add: pq_top_def)
    have rest: "drain_timers now runs ?d = Some d1"
      using Cons.prems(1) due by simp
    have heap: "is_heap (timer_pq ?d)"
      using Cons.prems(2) by (rule is_heap_fire_timer)
    have bound: "\<forall>x \<in> set (timer_pq ?d). next_timeout ?top \<le> next_timeout x"
      using fire_timer_lower_bound [OF Cons.prems(2) ne] by blast
    obtain evs where evs: "trace d1 = trace ?d @ evs"
        "sorted (map next_timeout (timer_calls evs))"
        "\<forall>x \<in> set (timer_calls evs). next_timeout ?top \<le> next_timeout x"
        "is_heap (timer_pq d1)"
      using Cons.IH [OF rest heap bound] by blast
    let ?evs = "TimerCalled ?top (cb_returns run) # evs"
    have "trace d1 = trace d @ ?evs"
      using evs(1) by (simp add: trace_fire_timer)
    moreover have "sorted (map next_timeout (timer_calls ?evs))"
      using evs(2,3) by simp
    moreover have "\<forall>x \<in> set (timer_calls ?evs). m \<le> next_timeout x"
      using evs(3) top by auto
    ultimately show ?thesis using evs(4) by blast
  next
    assume "\<not> timer_due now d"
    then have "d1 = d" using Cons.prems(1) by simp
    then show ?thesis using Cons.prems(2) by simp
  qed
qed

lemma timer_calls_AsyncReadBuffer_call:
  "AsyncReadBuffer_call res r = (out, r1, evs) \<Longrightarrow> timer_calls evs = []"
  by (auto simp: AsyncReadBuffer_call_def AsyncReadBuffer_DoCallback_def Let_def
      split: if_splits option.splits)

lemma timer_calls_AsyncWriteBuffer_call:
  "AsyncWriteBuffer_call res r = (out, r1, evs) \<Longrightarrow> timer_calls evs = []"
  by (auto simp: AsyncWriteBuffer_call_def AsyncWriteBuffer_DoCallback_def Let_def
      split: if_splits option.splits)

lemma timer_calls_AsyncReadByteBlock_call:
  "AsyncReadByteBlock_call res r = (out, r1, evs) \<Longrightarrow> timer_calls evs = []"
  by (auto simp: AsyncReadByteBlock_call_def AsyncReadByteBlock_DoCallback_def Let_def
      split: if_splits option.splits)

lemma timer_calls_AsyncWriteBlock_call:
  "AsyncWriteBlock_call res r = (out, r1, evs) \<Longrightarrow> timer_calls evs = []"
  by (auto simp: AsyncWriteBlock_call_def AsyncWriteBlock_DoCallback_def Let_def
      split: if_splits option.splits)

lemma fire_io_timers:
  "fire_io ev d = (out, d1) \<Longrightarrow>
     timer_pq d1 = timer_pq d \<and> (\<exists>evs. trace d1 = trace d @ evs \<and> timer_calls evs = [])"
  by (auto simp: fire_io_def timer_calls_AsyncReadBuffer_call
      timer_calls_AsyncWriteBuffer_call timer_calls_AsyncReadByteBlock_call
      timer_calls_AsyncWriteBlock_call
      split: handler.splits if_splits prod.splits)

lemma backend_calls_timers:
  "backend_calls io d = (st, d1) \<Longrightarrow>
     timer_pq d1 = timer_pq d \<and> (\<exists>evs. trace d1 = trace d @ evs \<and> timer_calls evs = [])"
proof (induction io arbitrary: d)
  case Nil
  then show ?case by simp
next
  case (Cons ev io)
  obtain out d' where f: "fire_io ev d = (out, d')"
    by (cases "fire_io ev d")
  obtain evs where w: "timer_pq d' = timer_pq d" "trace d' = trace d @ evs"
      "timer_calls evs = []"
    using fire_io_timers [OF f] by blast
  show ?case
  proof (cases out)
    case (Return keep)
    then have "backend_calls io d' = (st, d1)"
      using Cons.prems f by simp
    then obtain evs' where "timer_pq d1 = timer_pq d'" "trace d1 = trace d' @ evs'"
        "timer_calls evs' = []"
      using Cons.IH by blast
    then have "timer_pq d1 = timer_pq d \<and> trace d1 = trace d @ (evs @ evs')
        \<and> timer_calls (evs @ evs') = []"
      using w by (simp add: timer_calls_append)
    then show ?thesis by blast
  next
    case (Throw e)
    then have "d1 = d'" using Cons.prems f by simp
    then show ?thesis using w by blast
  next
    case Undefined
    then have "d1 = d'" using Cons.prems f by simp
    then show ?thesis using w by blast
  qed
qed

lemma DispatchOne_timers:
  assumes "DispatchOne tmo io d = (st, d1)"
  shows "timer_pq d1 = timer_pq d \<and> (\<exists>evs. trace d1 = trace d @ evs \<and> timer_calls evs = [])"
proof -
  let ?d = "d\<lparr>trace := trace d @ [Waited tmo]\<rparr>"
  have "backend_calls io ?d = (st, d1)"
    using assms by (simp add: DispatchOne_def)
  then obtain evs where "timer_pq d1 = timer_pq ?d" "trace d1 = trace ?d @ evs"
      "timer_calls evs = []"
    using backend_calls_timers by blast
  then have "timer_pq d1 = timer_pq d \<and> trace d1 = trace d @ (Waited tmo # evs)
      \<and> timer_calls (Waited tmo # evs) = []"
    by simp
  then show ?thesis by blast
qed

lemma timer_pq_reap: "timer_pq (reap d) = timer_pq d"
  by (simp add: reap_def)

lemma Dispatch_timers:
  assumes "Dispatch now runs io d = Some (st, d')"
  shows "\<exists>d1 evs. drain_timers now runs d = Some d1 \<and> timer_pq d' = timer_pq d1
     \<and> trace d' = trace d1 @ evs \<and> timer_calls evs = []"
proof -
  obtain d1 where dr: "drain_timers now runs d = Some d1"
    using assms by (auto simp: Dispatch_def split: option.splits)
  show ?thesis
  proof (rule case_split [of "terminate d1"])
    assume "terminate d1"
    then have "d' = d1" using assms dr by (simp add: Dispatch_def)
    then show ?thesis using dr by simp
  next
    assume t: "\<not> terminate d1"
    then obtain tmo d2 where one: "DispatchOne tmo io d1 = (st, d2)"
      and d': "d' = (if st = Normal then reap d2 else d2)"
      using assms dr
      by (auto simp: Dispatch_def Let_def split: prod.splits status.splits if_splits)
    show ?thesis
      using DispatchOne_timers [OF one] dr d' by (auto simp: timer_pq_reap trace_reap)
  qed
qed

lemma is_heap_empty: "is_heap []"
  by (simp add: is_heap_def)

lemma is_heap_AddTimer: "is_heap (timer_pq d) \<Longrightarrow> is_heap (timer_pq (AddTimer now tmo f d))"
  by (simp add: AddTimer_def is_heap_pq_emplace)

text \<open>
  Claim C3, amended. Timer callbacks fire in non-decreasing \<open>next_timeout\<close> order
  within each \<open>Dispatch()\<close>; nothing is promised about the order of timers with equal
  \<open>next_timeout\<close>. In detail: the timer queue of a new dispatcher is a heap, and
  \<open>AddTimer\<close> and every turn of the timer loop keep it one; the timer a turn fires
  expires no later than any timer in the queue, and no later than any timer left in the
  queue after the turn (the re-inserted one included); so the timers fired by one
  \<open>Dispatch()\<close> are sorted by \<open>next_timeout\<close>.
\<close>

theorem timers_fire_in_expiry_order:
  "is_heap (timer_pq Dispatcher_new)
   \<and> (is_heap (timer_pq d) \<longrightarrow> is_heap (timer_pq (AddTimer t tmo f d)))
   \<and> (is_heap (timer_pq d) \<and> timer_due now d \<longrightarrow>
        is_heap (timer_pq (fire_timer run d))
        \<and> (\<forall>x \<in> set (timer_pq d). next_timeout (pq_top (timer_pq d)) \<le> next_timeout x)
        \<and> (\<forall>x \<in> set (timer_pq (fire_timer run d)).
              next_timeout (pq_top (timer_pq d)) \<le> next_timeout x))
   \<and> (is_heap (timer_pq d) \<and> Dispatch now runs io d = Some (st, d') \<longrightarrow>
        take (length (trace d)) (trace d') = trace d
        \<and> sorted (map next_timeout (timer_calls (drop (length (trace d)) (trace d'))))
        \<and> is_heap (timer_pq d'))"
proof (intro conjI impI)
  show "is_heap (timer_pq Dispatcher_new)"
    by (simp add: Dispatcher_new_def is_heap_empty)
  show "is_heap (timer_pq (AddTimer t tmo f d))" if "is_heap (timer_pq d)"
    using that by (rule is_heap_AddTimer)
next
  assume a: "is_heap (timer_pq d) \<and> timer_due now d"
  then have heap: "is_heap (timer_pq d)" and ne: "timer_pq d \<noteq> []"
    by (simp_all add: timer_due_def)
  show "is_heap (timer_pq (fire_timer run d))"
    using heap by (rule is_heap_fire_timer)
  show "\<forall>x \<in> set (timer_pq d). next_timeout (pq_top (timer_pq d)) \<le> next_timeout x"
    using heap_top_least_set [OF heap] by (simp add: pq_top_def)
  show "\<forall>x \<in> set (timer_pq (fire_timer run d)).
      next_timeout (pq_top (timer_pq d)) \<le> next_timeout x"
    using fire_timer_lower_bound [OF heap ne] by blast
next
  assume a: "is_heap (timer_pq d) \<and> Dispatch now runs io d = Some (st, d')"
  then have heap: "is_heap (timer_pq d)" and run: "Dispatch now runs io d = Some (st, d')"
    by simp_all
  obtain d1 evs where dr: "drain_timers now runs d = Some d1"
      and pq: "timer_pq d' = timer_pq d1"
      and tr: "trace d' = trace d1 @ evs" and no: "timer_calls evs = []"
    using Dispatch_timers [OF run] by blast
  define m where "m = (if timer_pq d = [] then 0 else next_timeout (timer_pq d ! 0))"
  have low: "\<forall>x \<in> set (timer_pq d). m \<le> next_timeout x"
    using heap_top_least_set [OF heap] by (auto simp: m_def)
  obtain fired where f: "trace d1 = trace d @ fired"
      "sorted (map next_timeout (timer_calls fired))" "is_heap (timer_pq d1)"
    using drain_timers_sorted [OF dr heap low] by blast
  have new: "trace d' = trace d @ (fired @ evs)"
    using tr f(1) by simp
  show "take (length (trace d)) (trace d') = trace d"
    using new by simp
  show "sorted (map next_timeout (timer_calls (drop (length (trace d)) (trace d'))))"
    using new f(2) no by (simp add: timer_calls_append)
  show "is_heap (timer_pq d')"
    using pq f(3) by simp
qed

text \<open>
  Two timers, due at 3 and 5 milliseconds, added in this order and fired by a
  \<open>Dispatch()\<close> at 6 milliseconds.
\<close>

theorem timers_fire_in_expiry_order_witness:
  "is_heap (timer_pq (AddTimer 0 5 11 (AddTimer 0 3 10 Dispatcher_new)))
   \<and> timer_due 6000000 (AddTimer 0 5 11 (AddTimer 0 3 10 Dispatcher_new))
   \<and> is_heap (timer_pq (fire_timer (CbRun False False)
         (AddTimer 0 5 11 (AddTimer 0 3 10 Dispatcher_new))))
   \<and> Dispatch 6000000 [CbRun False False, CbRun False False] []
        (AddTimer 0 5 11 (AddTimer 0 3 10 Dispatcher_new))
      = Some (Normal,
          Dispatcher_new\<lparr>trace :=
            [TimerCalled \<lparr>next_timeout = 3000000, timeout = 3, cb = 10\<rparr> False,
             TimerCalled \<lparr>next_timeout = 5000000, timeout = 5, cb = 11\<rparr> False,
             Waited 10000]\<rparr>)
   \<and> sorted (map next_timeout (timer_calls
        [TimerCalled \<lparr>next_timeout = 3000000, timeout = 3, cb = 10\<rparr> False,
         TimerCalled \<lparr>next_timeout = 5000000, timeout = 5, cb = 11\<rparr> False,
         Waited 10000]))"
proof -
  let ?d = "AddTimer 0 5 11 (AddTimer 0 3 10 Dispatcher_new)"
  let ?evs = "[TimerCalled \<lparr>next_timeout = 3000000, timeout = 3, cb = 10\<rparr> False,
         TimerCalled \<lparr>next_timeout = 5000000, timeout = 5, cb = 11\<rparr> False,
         Waited 10000]"
  note main = timers_fire_in_expiry_order
  have "is_heap (timer_pq (AddTimer 0 3 10 Dispatcher_new))"
    using main [of Dispatcher_new 0 3 10] by blast
  then have heap: "is_heap (timer_pq ?d)"
    using main [of "AddTimer 0 3 10 Dispatcher_new" 0 5 11] by blast
  have due: "timer_due 6000000 ?d"
    by code_simp
  have run: "Dispatch 6000000 [CbRun False False, CbRun False False] [] ?d
      = Some (Normal, Dispatcher_new\<lparr>trace := ?evs\<rparr>)"
    by code_simp
  have tr: "trace ?d = []"
    by (simp add: AddTimer_def Dispatcher_new_def)
  have one: "is_heap (timer_pq (fire_timer (CbRun False False) ?d))"
    using main [of ?d _ _ _ 6000000 "CbRun False False"] heap due by blast
  have "sorted (map next_timeout (timer_calls
      (drop (length (trace ?d)) (trace (Dispatcher_new\<lparr>trace := ?evs\<rparr>)))))"
    using main [of ?d _ _ _ 6000000 _ "[CbRun False False, CbRun False False]" "[]" Normal
        "Dispatcher_new\<lparr>trace := ?evs\<rparr>"] heap run by blast
  then have "sorted (map next_timeout (timer_calls ?evs))"
    using tr by simp
  then show ?thesis
    using heap due one run by blast
qed

text \<open>
  Claim C3, as stated, fails on ties: four timers with the same \<open>next_timeout\<close>, added
  in the order 10, 11, 12, 13, are fired by one \<open>Dispatch()\<close> in the order 10, 12, 11,
  13. The timers' \<open>operator <\<close> compares \<open>next_timeout\<close> only, and the binary heap of
  \<open>std::priority_queue\<close> is not stable.
\<close>

theorem equal_expiry_not_fifo_counterexample:
  "Dispatch 5000000
     [CbRun False False, CbRun False False, CbRun False False, CbRun False False] []
     (AddTimer 0 5 13 (AddTimer 0 5 12 (AddTimer 0 5 11 (AddTimer 0 5 10 Dispatcher_new))))
   = Some (Normal,
       Dispatcher_new\<lparr>trace :=
         [TimerCalled \<lparr>next_timeout = 5000000, timeout = 5, cb = 10\<rparr> False,
          TimerCalled \<lparr>next_timeout = 5000000, timeout = 5, cb = 12\<rparr> False,
          TimerCalled \<lparr>next_timeout = 5000000, timeout = 5, cb = 11\<rparr> False,
          TimerCalled \<lparr>next_timeout = 5000000, timeout = 5, cb = 13\<rparr> False,
          Waited 10000]\<rparr>)
   \<and> timer_pq (AddTimer 0 5 13 (AddTimer 0 5 12 (AddTimer 0 5 11
         (AddTimer 0 5 10 Dispatcher_new))))
     = [\<lparr>next_timeout = 5000000, timeout = 5, cb = 10\<rparr>,
        \<lparr>next_timeout = 5000000, timeout = 5, cb = 11\<rparr>,
        \<lparr>next_timeout = 5000000, timeout = 5, cb = 12\<rparr>,
        \<lparr>next_timeout = 5000000, timeout = 5, cb = 13\<rparr>]"
  by code_simp

lemma keeps_returning_true_append:
  "keeps_returning_true f (a @ b) \<longleftrightarrow> keeps_returning_true f a \<and> keeps_returning_true f b"
  by (induction f a rule: keeps_returning_true.induct) simp_all

lemma fired_append: "fired f (a @ b) = fired f a @ fired f b"
  by (simp add: fired_def timer_calls_append)

lemma mset_pending: "mset (pending f d) = {#x \<in># mset (timer_pq d). cb x = f#}"
  by (simp add: pending_def)

lemma cb_requeued: "cb (requeued x) = cb x"
  by (simp add: requeued_def)

lemma pending_fire_other:
  assumes ne: "timer_pq d \<noteq> []" and other: "cb (pq_top (timer_pq d)) \<noteq> f"
  shows "mset (pending f (fire_timer run d)) = mset (pending f d)"
proof (rule case_split [of "cb_returns run"])
  assume "\<not> cb_returns run"
  then show ?thesis
    using ne other by (simp add: mset_pending timer_pq_fire_timer mset_pq_pop pq_top_def)
next
  assume ret: "cb_returns run"
  let ?top = "pq_top (timer_pq d)"
  let ?pq2 = "pq_emplace (requeued ?top) (timer_pq d)"
  have "?pq2 ! 0 = ?top \<or> ?pq2 ! 0 = requeued ?top"
    using pq_emplace_top_cases [OF ne] by (simp add: pq_top_def)
  then have r: "cb (?pq2 ! 0) \<noteq> f"
    using other by (auto simp: cb_requeued)
  have "mset (timer_pq (fire_timer run d)) =
      add_mset (requeued ?top) (mset (timer_pq d)) - {#?pq2 ! 0#}"
    using ret pq_emplace_not_empty [of "requeued ?top" "timer_pq d"]
    by (simp add: timer_pq_fire_timer mset_pq_pop mset_pq_emplace)
  then show ?thesis
    using r other by (simp add: mset_pending cb_requeued)
qed

lemma ticks_per_ms_pos: "0 < ticks_per_ms"
  by (simp add: ticks_per_ms_def)

lemma wrap64_id: "int64 x \<Longrightarrow> wrap64 x = x"
  by (simp add: wrap64_def int64_def)

lemma wrap64_add_wrap64: "wrap64 (a + wrap64 b) = wrap64 (a + b)"
proof -
  have "(a + ((b + 2 ^ 63) mod 2 ^ 64 - 2 ^ 63) + 2 ^ 63) mod 2 ^ 64 =
      (a + (b + 2 ^ 63) mod 2 ^ 64) mod (2 ^ 64 :: int)"
    by (simp add: algebra_simps)
  also have "\<dots> = (a + (b + 2 ^ 63)) mod 2 ^ 64"
    by (rule mod_add_right_eq)
  finally show ?thesis
    by (simp add: wrap64_def algebra_simps)
qed

lemma time_point_plus_id:
  "int64 (tp + ms * ticks_per_ms) \<Longrightarrow> time_point_plus tp ms = tp + ms * ticks_per_ms"
  by (simp add: time_point_plus_def wrap64_add_wrap64 wrap64_id)

lemma pending_fire_own:
  assumes ne: "timer_pq d \<noteq> []" and own: "cb (pq_top (timer_pq d)) = f"
    and later: "next_timeout (pq_top (timer_pq d)) \<le> next_timeout (requeued (pq_top (timer_pq d)))"
    and ret: "cb_returns run"
  shows "mset (pending f (fire_timer run d)) =
     add_mset (requeued (pq_top (timer_pq d))) (mset (pending f d) - {#pq_top (timer_pq d)#})"
proof -
  let ?top = "pq_top (timer_pq d)"
  let ?pq2 = "pq_emplace (requeued ?top) (timer_pq d)"
  have "\<not> Timer_less (timer_pq d ! 0) (requeued ?top)"
    using later by (simp add: Timer_less_def pq_top_def)
  then have "?pq2 ! 0 = ?top"
    using pq_emplace_top [OF ne] by (simp add: pq_top_def)
  then have "mset (timer_pq (fire_timer run d)) =
      add_mset (requeued ?top) (mset (timer_pq d)) - {#?top#}"
    using ret pq_emplace_not_empty [of "requeued ?top" "timer_pq d"]
    by (simp add: timer_pq_fire_timer mset_pq_pop mset_pq_emplace)
  moreover have "?top \<in># {#x \<in># mset (timer_pq d). cb x = f#}"
    using ne own by (simp add: pq_top_def)
  ultimately show ?thesis
    using own
    by (simp add: mset_pending cb_requeued)
qed

lemma requeued_scheduled:
  assumes "int64 (next_timeout (scheduled f t0 T (Suc k)))"
  shows "requeued (scheduled f t0 T k) = scheduled f t0 T (Suc k)"
proof -
  have eq: "t0 + int k * (T * ticks_per_ms) + T * ticks_per_ms =
      t0 + int (Suc k) * (T * ticks_per_ms)"
    by (simp add: algebra_simps)
  have "int64 (t0 + int k * (T * ticks_per_ms) + T * ticks_per_ms)"
    using assms unfolding eq by (simp add: scheduled_def)
  then have "time_point_plus (t0 + int k * (T * ticks_per_ms)) T =
      t0 + int (Suc k) * (T * ticks_per_ms)"
    using eq by (simp only: time_point_plus_id)
  then show ?thesis
    by (simp add: requeued_def scheduled_def)
qed

lemma scheduled_mono:
  assumes "0 \<le> T" and "m \<le> n"
  shows "next_timeout (scheduled f t0 T m) \<le> next_timeout (scheduled f t0 T n)"
proof -
  have "0 \<le> T * ticks_per_ms"
    using assms(1) ticks_per_ms_pos by simp
  then have "int m * (T * ticks_per_ms) \<le> int n * (T * ticks_per_ms)"
    using assms(2) by (intro mult_right_mono) simp_all
  then show ?thesis
    by (simp add: scheduled_def)
qed

lemma int64_scheduled_mono:
  assumes T: "0 \<le> T" and t0: "int64 t0" and le: "m \<le> n"
    and n: "int64 (next_timeout (scheduled f t0 T n))"
  shows "int64 (next_timeout (scheduled f t0 T m))"
proof -
  have "next_timeout (scheduled f t0 T 0) \<le> next_timeout (scheduled f t0 T m)"
    using T by (intro scheduled_mono) simp_all
  then have "t0 \<le> next_timeout (scheduled f t0 T m)"
    by (simp add: scheduled_def)
  moreover have "next_timeout (scheduled f t0 T m) \<le> next_timeout (scheduled f t0 T n)"
    using T le by (rule scheduled_mono)
  ultimately show ?thesis
    using t0 n by (simp add: int64_def)
qed

lemma representable_prefix:
  assumes T: "0 \<le> T" and t0: "int64 t0" and tr: "trace d' = trace d @ evs"
    and rep: "representable f t0 T d'"
  shows "representable f t0 T d"
proof -
  have "length (fired f (trace d)) \<le> length (fired f (trace d'))"
    using tr by (simp add: fired_append)
  then have "Suc (length (fired f (trace d))) \<le> Suc (length (fired f (trace d')))"
    by simp
  then show ?thesis
    using int64_scheduled_mono [OF T t0] rep unfolding representable_def by blast
qed

lemma fire_timer_drift_free:
  assumes inv: "drift_free f t0 T d" and T: "0 \<le> T" and ne: "timer_pq d \<noteq> []"
    and true: "cb (pq_top (timer_pq d)) = f \<longrightarrow> cb_returns run"
    and rep: "representable f t0 T (fire_timer run d)"
  shows "drift_free f t0 T (fire_timer run d)"
proof -
  let ?top = "pq_top (timer_pq d)"
  let ?n = "length (fired f (trace d))"
  have fd: "fired f (trace d) = map (scheduled f t0 T) [1..<Suc ?n]"
    and pd: "pending f d = [scheduled f t0 T (Suc ?n)]"
    using inv by (simp_all add: drift_free_def Let_def)
  have tr: "fired f (trace (fire_timer run d)) =
      fired f (trace d) @ (if cb ?top = f then [?top] else [])"
    by (simp add: trace_fire_timer fired_append) (simp add: fired_def)
  show ?thesis
  proof (rule case_split [of "cb ?top = f"])
    assume own: "cb ?top = f"
    have "?top \<in> set (timer_pq d)" using ne by (simp add: pq_top_def)
    then have "?top \<in> set (pending f d)" using own by (simp add: pending_def)
    then have top: "?top = scheduled f t0 T (Suc ?n)" using pd by simp
    have "length (fired f (trace (fire_timer run d))) = Suc ?n"
      using tr own by simp
    then have "int64 (next_timeout (scheduled f t0 T (Suc (Suc ?n))))"
      using rep by (simp add: representable_def)
    then have again: "requeued ?top = scheduled f t0 T (Suc (Suc ?n))"
      unfolding top by (rule requeued_scheduled)
    have "next_timeout ?top \<le> next_timeout (requeued ?top)"
      unfolding again unfolding top using T by (intro scheduled_mono) simp_all
    then have "mset (pending f (fire_timer run d)) =
        add_mset (requeued ?top) (mset (pending f d) - {#?top#})"
      using ne own true by (intro pending_fire_own) simp_all
    then have "mset (pending f (fire_timer run d)) = {#scheduled f t0 T (Suc (Suc ?n))#}"
      using pd top again by simp
    then have p: "pending f (fire_timer run d) = [scheduled f t0 T (Suc (Suc ?n))]"
      by simp
    have f: "fired f (trace (fire_timer run d)) = map (scheduled f t0 T) [1..<Suc (Suc ?n)]"
      using tr own fd top by simp
    have "length (fired f (trace (fire_timer run d))) = Suc ?n"
      using tr own by simp
    then show ?thesis
      using p f by (simp add: drift_free_def Let_def)
  next
    assume other: "cb ?top \<noteq> f"
    have "mset (pending f (fire_timer run d)) = mset (pending f d)"
      using ne other by (rule pending_fire_other)
    then have "pending f (fire_timer run d) = [scheduled f t0 T (Suc ?n)]"
      using pd by simp
    moreover have "fired f (trace (fire_timer run d)) = fired f (trace d)"
      using tr other by simp
    ultimately show ?thesis
      using fd by (simp add: drift_free_def Let_def)
  qed
qed

lemma trace_drain_timers:
  "drain_timers now runs d = Some d1 \<Longrightarrow> \<exists>evs. trace d1 = trace d @ evs"
proof (induction runs arbitrary: d)
  case Nil
  then show ?case by (simp split: if_splits)
next
  case (Cons run runs)
  show ?case
  proof (rule case_split [of "timer_due now d"])
    assume "timer_due now d"
    then have "drain_timers now runs (fire_timer run d) = Some d1"
      using Cons.prems by simp
    then obtain evs where "trace d1 = trace (fire_timer run d) @ evs"
      using Cons.IH by blast
    then have "trace d1 =
        trace d @ (TimerCalled (pq_top (timer_pq d)) (cb_returns run) # evs)"
      by (simp add: trace_fire_timer)
    then show ?thesis by blast
  next
    assume "\<not> timer_due now d"
    then show ?thesis using Cons.prems by simp
  qed
qed

lemma drain_timers_drift_free:
  assumes "drain_timers now runs d = Some d1" and "drift_free f t0 T d" and "0 \<le> T"
    and "int64 t0" and "representable f t0 T d1"
  shows "\<exists>evs. trace d1 = trace d @ evs
     \<and> (keeps_returning_true f evs \<longrightarrow> drift_free f t0 T d1)"
  using assms(1,2)
proof (induction runs arbitrary: d)
  case Nil
  then show ?case by (simp split: if_splits)
next
  case (Cons run runs)
  show ?case
  proof (rule case_split [of "timer_due now d"])
    assume due: "timer_due now d"
    let ?top = "pq_top (timer_pq d)"
    let ?d = "fire_timer run d"
    have ne: "timer_pq d \<noteq> []" using due by (simp add: timer_due_def)
    have rest: "drain_timers now runs ?d = Some d1"
      using Cons.prems(1) due by simp
    show ?thesis
    proof (rule case_split [of "cb ?top = f \<longrightarrow> cb_returns run"])
      assume ok: "cb ?top = f \<longrightarrow> cb_returns run"
      obtain evs0 where e0: "trace d1 = trace ?d @ evs0"
        using trace_drain_timers [OF rest] by blast
      have "representable f t0 T ?d"
        using assms(3,4) e0 assms(5) by (rule representable_prefix)
      then have "drift_free f t0 T ?d"
        using Cons.prems(2) assms(3) ne ok by (intro fire_timer_drift_free)
      then obtain evs where evs: "trace d1 = trace ?d @ evs"
          "keeps_returning_true f evs \<longrightarrow> drift_free f t0 T d1"
        using Cons.IH [OF rest] by blast
      let ?evs = "TimerCalled ?top (cb_returns run) # evs"
      have "trace d1 = trace d @ ?evs"
        using evs(1) by (simp add: trace_fire_timer)
      moreover have "keeps_returning_true f ?evs \<longrightarrow> drift_free f t0 T d1"
        using evs(2) by simp
      ultimately show ?thesis by blast
    next
      assume bad: "\<not> (cb ?top = f \<longrightarrow> cb_returns run)"
      obtain evs where evs: "trace d1 = trace ?d @ evs"
        using trace_drain_timers [OF rest] by blast
      let ?evs = "TimerCalled ?top (cb_returns run) # evs"
      have "trace d1 = trace d @ ?evs"
        using evs by (simp add: trace_fire_timer)
      moreover have "\<not> keeps_returning_true f ?evs"
        using bad by simp
      ultimately show ?thesis by blast
    qed
  next
    assume "\<not> timer_due now d"
    then have "d1 = d" using Cons.prems(1) by simp
    then have "trace d1 = trace d @ [] \<and> (keeps_returning_true f [] \<longrightarrow> drift_free f t0 T d1)"
      using Cons.prems(2) by simp
    then show ?thesis by blast
  qed
qed

lemma drift_free_cong:
  assumes "timer_pq d' = timer_pq d" and "trace d' = trace d @ evs" and "timer_calls evs = []"
  shows "drift_free f t0 T d' = drift_free f t0 T d"
  using assms by (simp add: drift_free_def pending_def fired_def timer_calls_append)

lemma trace_Dispatch:
  assumes "Dispatch now runs io d = Some (st, d')"
  shows "\<exists>evs. trace d' = trace d @ evs"
proof -
  obtain d1 io_evs where "drain_timers now runs d = Some d1" "trace d' = trace d1 @ io_evs"
    using Dispatch_timers [OF assms] by blast
  then show ?thesis
    using trace_drain_timers by fastforce
qed

lemma trace_Loop:
  "Loop its d = Some (st, d') \<Longrightarrow> \<exists>evs. trace d' = trace d @ evs"
proof (induction its arbitrary: d)
  case Nil
  then show ?case by (simp split: if_splits)
next
  case (Cons it its)
  obtain now runs io where it: "it = (now, runs, io)"
    by (cases it)
  show ?case
  proof (rule case_split [of "terminate d"])
    assume "terminate d"
    then show ?thesis using Cons.prems it by simp
  next
    assume t: "\<not> terminate d"
    then obtain st1 d1 where one: "Dispatch now runs io d = Some (st1, d1)"
      using Cons.prems it by (auto split: option.splits)
    obtain evs where evs: "trace d1 = trace d @ evs"
      using trace_Dispatch [OF one] by blast
    show ?thesis
    proof (rule case_split [of "st1 = Normal"])
      assume "st1 = Normal"
      then have "Loop its d1 = Some (st, d')"
        using Cons.prems it t one by simp
      then obtain evs' where "trace d' = trace d1 @ evs'"
        using Cons.IH by blast
      then show ?thesis using evs by simp
    next
      assume "st1 \<noteq> Normal"
      then have "d' = d1"
        using Cons.prems it t one by (cases st1) simp_all
      then show ?thesis using evs by simp
    qed
  qed
qed

lemma Dispatch_drift_free:
  assumes run: "Dispatch now runs io d = Some (st, d')" and inv: "drift_free f t0 T d"
    and T: "0 \<le> T" and t0: "int64 t0" and rep: "representable f t0 T d'"
  shows "\<exists>evs. trace d' = trace d @ evs
     \<and> (keeps_returning_true f evs \<longrightarrow> drift_free f t0 T d')"
proof -
  obtain d1 io_evs where dr: "drain_timers now runs d = Some d1"
      and pq: "timer_pq d' = timer_pq d1"
      and tr: "trace d' = trace d1 @ io_evs" and no: "timer_calls io_evs = []"
    using Dispatch_timers [OF run] by blast
  have rep1: "representable f t0 T d1"
    using T t0 tr rep by (rule representable_prefix)
  obtain evs where evs: "trace d1 = trace d @ evs"
      "keeps_returning_true f evs \<longrightarrow> drift_free f t0 T d1"
    using drain_timers_drift_free [OF dr inv T t0 rep1] by blast
  have same: "drift_free f t0 T d' = drift_free f t0 T d1"
    using pq tr no by (rule drift_free_cong)
  have "trace d' = trace d @ (evs @ io_evs)"
    using tr evs(1) by simp
  moreover have "keeps_returning_true f (evs @ io_evs) \<longrightarrow> drift_free f t0 T d'"
    using evs(2) same by (simp add: keeps_returning_true_append)
  ultimately show ?thesis by blast
qed

lemma Loop_drift_free:
  assumes "Loop its d = Some (st, d')" and "drift_free f t0 T d" and "0 \<le> T"
    and "int64 t0" and "representable f t0 T d'"
  shows "\<exists>evs. trace d' = trace d @ evs
     \<and> (keeps_returning_true f evs \<longrightarrow> drift_free f t0 T d')"
  using assms(1,2)
proof (induction its arbitrary: d)
  case Nil
  then have "d' = d" by (simp split: if_splits)
  then have "trace d' = trace d @ [] \<and> (keeps_returning_true f [] \<longrightarrow> drift_free f t0 T d')"
    using Nil.prems(2) by simp
  then show ?case by blast
next
  case (Cons it its)
  obtain now runs io where it: "it = (now, runs, io)"
    by (cases it)
  show ?case
  proof (rule case_split [of "terminate d"])
    assume "terminate d"
    then have "d' = d" using Cons.prems(1) it by simp
    then have "trace d' = trace d @ []
        \<and> (keeps_returning_true f [] \<longrightarrow> drift_free f t0 T d')"
      using Cons.prems(2) by simp
    then show ?thesis by blast
  next
    assume t: "\<not> terminate d"
    then obtain st1 d1 where one: "Dispatch now runs io d = Some (st1, d1)"
      using Cons.prems(1) it by (auto split: option.splits)
    have rest: "st1 = Normal \<Longrightarrow> Loop its d1 = Some (st, d')"
      using Cons.prems(1) it t one by simp
    have stop: "st1 \<noteq> Normal \<Longrightarrow> d' = d1"
      using Cons.prems(1) it t one by (cases st1) simp_all
    have "\<exists>evs'. trace d' = trace d1 @ evs'"
      using rest [THEN trace_Loop] stop by (cases "st1 = Normal") simp_all
    then obtain evs' where evs': "trace d' = trace d1 @ evs'"
      by blast
    have rep1: "representable f t0 T d1"
      using assms(3,4) evs' assms(5) by (rule representable_prefix)
    obtain evs where evs: "trace d1 = trace d @ evs"
        "keeps_returning_true f evs \<longrightarrow> drift_free f t0 T d1"
      using Dispatch_drift_free [OF one Cons.prems(2) assms(3,4) rep1] by blast
    have all: "trace d' = trace d @ (evs @ evs')"
      using evs(1) evs' by simp
    show ?thesis
    proof (rule case_split [of "st1 = Normal \<and> keeps_returning_true f evs"])
      assume a: "st1 = Normal \<and> keeps_returning_true f evs"
      then have "drift_free f t0 T d1" using evs(2) by simp
      moreover have "Loop its d1 = Some (st, d')" using a rest by simp
      ultimately obtain evs2 where evs2: "trace d' = trace d1 @ evs2"
          "keeps_returning_true f evs2 \<longrightarrow> drift_free f t0 T d'"
        using Cons.IH by blast
      have "evs2 = evs'" using evs2(1) evs' by simp
      then have "keeps_returning_true f (evs @ evs') \<longrightarrow> drift_free f t0 T d'"
        using evs2(2) by (simp add: keeps_returning_true_append)
      then show ?thesis using all by blast
    next
      assume "\<not> (st1 = Normal \<and> keeps_returning_true f evs)"
      then have "st1 \<noteq> Normal \<or> \<not> keeps_returning_true f evs" by blast
      then show ?thesis
      proof
        assume "st1 \<noteq> Normal"
        then have "d' = d1" by (rule stop)
        then show ?thesis using evs by blast
      next
        assume "\<not> keeps_returning_true f evs"
        then have "\<not> keeps_returning_true f (evs @ evs')"
          by (simp add: keeps_returning_true_append)
        then show ?thesis using all by blast
      qed
    qed
  qed
qed

lemma AddTimer_drift_free:
  assumes "fired f (trace d0) = []" and "pending f d0 = []"
    and "representable f t0 T (AddTimer t0 T f d0)"
  shows "drift_free f t0 T (AddTimer t0 T f d0)"
proof -
  let ?new = "\<lparr>next_timeout = time_point_plus t0 T, timeout = T, cb = f\<rparr>"
  have tr: "trace (AddTimer t0 T f d0) = trace d0"
    by (simp add: AddTimer_def)
  have "int64 (t0 + T * ticks_per_ms)"
    using assms(1,3) by (simp add: representable_def tr scheduled_def)
  then have new: "?new = scheduled f t0 T 1"
    by (simp add: time_point_plus_id scheduled_def)
  have "mset (pending f (AddTimer t0 T f d0)) = add_mset ?new (mset (pending f d0))"
    by (simp add: mset_pending AddTimer_def mset_pq_emplace)
  then have "pending f (AddTimer t0 T f d0) = [?new]"
    using assms(2) by simp
  then show ?thesis
    using assms(1) tr new by (simp add: drift_free_def)
qed

text \<open>
  Claim C5, as stated, fails on a negative timeout and beyond the range of the clock's
  count. A timer of \<open>-5\<close> milliseconds added at 20 milliseconds expires at 15; each
  time it fires, the entry emplaced for 10 milliseconds becomes the top of the queue
  and is the one \<open>pop()\<close> removes, so the same entry fires again: three firings at 15,
  15, 15 and not at 15, 10, 5. A timer of 10000000000000 milliseconds added at time 0
  is given the expiry \<open>-8446744073709551616\<close>, which is 10000000000000000000 less
  18446744073709551616, and is due at once.
\<close>

theorem drift_free_counterexample:
  "Dispatch 20000000 [CbRun True False, CbRun True False, CbRun True True] []
       (AddTimer 20000000 (- 5) 10 Dispatcher_new)
     = Some (Normal,
         Dispatcher_new\<lparr>terminate := True,
           timer_pq := [\<lparr>next_timeout = 15000000, timeout = - 5, cb = 10\<rparr>],
           trace :=
             [TimerCalled \<lparr>next_timeout = 15000000, timeout = - 5, cb = 10\<rparr> True,
              TimerCalled \<lparr>next_timeout = 15000000, timeout = - 5, cb = 10\<rparr> True,
              TimerCalled \<lparr>next_timeout = 15000000, timeout = - 5, cb = 10\<rparr> True]\<rparr>)
   \<and> \<not> drift_free 10 20000000 (- 5)
       (Dispatcher_new\<lparr>terminate := True,
           timer_pq := [\<lparr>next_timeout = 15000000, timeout = - 5, cb = 10\<rparr>],
           trace :=
             [TimerCalled \<lparr>next_timeout = 15000000, timeout = - 5, cb = 10\<rparr> True,
              TimerCalled \<lparr>next_timeout = 15000000, timeout = - 5, cb = 10\<rparr> True,
              TimerCalled \<lparr>next_timeout = 15000000, timeout = - 5, cb = 10\<rparr> True]\<rparr>)
   \<and> timer_pq (AddTimer 0 10000000000000 10 Dispatcher_new)
     = [\<lparr>next_timeout = - 8446744073709551616, timeout = 10000000000000, cb = 10\<rparr>]
   \<and> timer_due 0 (AddTimer 0 10000000000000 10 Dispatcher_new)
   \<and> \<not> drift_free 10 0 10000000000000 (AddTimer 0 10000000000000 10 Dispatcher_new)"
  by code_simp

text \<open>
  Claim C5, amended. Take a timer added at time \<open>t0\<close> with a timeout \<open>T \<ge> 0\<close>, followed
  by its callback \<open>f\<close>, as far as its expiries are values of the clock's 64-bit count:
  \<open>representable\<close> says so of the expiry \<open>t0 + (n + 1)T\<close> of the entry in the queue
  after \<open>n\<close> firings, the latest one computed. \<open>AddTimer\<close> schedules the timer for
  \<open>t0 + T\<close>. As long as every call of \<open>f\<close> returns true, each turn of the timer loop, each
  \<open>Dispatch()\<close> and each \<open>Loop()\<close> keep the schedule free of drift, whatever the current
  time is at any of them and whatever other timers do: the \<open>k\<close>-th firing of \<open>f\<close> is that
  of the entry with \<open>next_timeout = t0 + k T\<close>, and the entry waiting in the queue
  after \<open>n\<close> firings expires at \<open>t0 + (n + 1) T\<close>, the expiry of the entry popped plus
  its timeout.
\<close>

theorem drift_free_rescheduling:
  assumes "0 \<le> T" and "int64 t0"
  shows "(fired f (trace d0) = [] \<and> pending f d0 = []
        \<and> representable f t0 T (AddTimer t0 T f d0) \<longrightarrow>
            drift_free f t0 T (AddTimer t0 T f d0))
    \<and> (drift_free f t0 T d \<and> timer_due now d
        \<and> (cb (pq_top (timer_pq d)) = f \<longrightarrow> cb_returns run)
        \<and> representable f t0 T (fire_timer run d) \<longrightarrow>
            drift_free f t0 T (fire_timer run d))
    \<and> (drift_free f t0 T d \<and> Dispatch now runs io d = Some (st, d')
        \<and> keeps_returning_true f (drop (length (trace d)) (trace d'))
        \<and> representable f t0 T d' \<longrightarrow>
            drift_free f t0 T d')
    \<and> (drift_free f t0 T d \<and> Loop its d = Some (st, d')
        \<and> keeps_returning_true f (drop (length (trace d)) (trace d'))
        \<and> representable f t0 T d' \<longrightarrow>
            drift_free f t0 T d')"
proof (intro conjI impI)
  assume "fired f (trace d0) = [] \<and> pending f d0 = []
    \<and> representable f t0 T (AddTimer t0 T f d0)"
  then show "drift_free f t0 T (AddTimer t0 T f d0)"
    by (simp add: AddTimer_drift_free)
next
  assume a: "drift_free f t0 T d \<and> timer_due now d
    \<and> (cb (pq_top (timer_pq d)) = f \<longrightarrow> cb_returns run)
    \<and> representable f t0 T (fire_timer run d)"
  then have "timer_pq d \<noteq> []" by (simp add: timer_due_def)
  then show "drift_free f t0 T (fire_timer run d)"
    using a assms(1) by (intro fire_timer_drift_free) simp_all
next
  assume a: "drift_free f t0 T d \<and> Dispatch now runs io d = Some (st, d')
    \<and> keeps_returning_true f (drop (length (trace d)) (trace d'))
    \<and> representable f t0 T d'"
  then obtain evs where "trace d' = trace d @ evs"
      "keeps_returning_true f evs \<longrightarrow> drift_free f t0 T d'"
    using Dispatch_drift_free [of now runs io d st d' f t0 T] assms by blast
  then show "drift_free f t0 T d'" using a by simp
next
  assume a: "drift_free f t0 T d \<and> Loop its d = Some (st, d')
    \<and> keeps_returning_true f (drop (length (trace d)) (trace d'))
    \<and> representable f t0 T d'"
  then obtain evs where "trace d' = trace d @ evs"
      "keeps_returning_true f evs \<longrightarrow> drift_free f t0 T d'"
    using Loop_drift_free [of its d st d' f t0 T] assms by blast
  then show "drift_free f t0 T d'" using a by simp
qed

text \<open>
  A timer of 5 milliseconds (callback 10) beside one of 7 milliseconds (callback 20),
  both added at time 0, and a loop whose two iterations start late, at 12 and at 26
  milliseconds: callback 10 is called for the expiries 5, 10, 15, 20 and 25
  milliseconds, and the entry left in the queue expires at 30 milliseconds.
\<close>

theorem drift_free_rescheduling_witness:
  "drift_free 10 0 5 (AddTimer 0 5 10 (AddTimer 0 7 20 Dispatcher_new))
   \<and> Loop [(12000000, [CbRun True False, CbRun True False, CbRun True False], []),
            (26000000, [CbRun True False, CbRun True False, CbRun True False,
                        CbRun True False, CbRun True True], [])]
       (AddTimer 0 5 10 (AddTimer 0 7 20 Dispatcher_new))
     = Some (Normal,
         Dispatcher_new\<lparr>terminate := True,
           timer_pq := [\<lparr>next_timeout = 28000000, timeout = 7, cb = 20\<rparr>,
                        \<lparr>next_timeout = 30000000, timeout = 5, cb = 10\<rparr>],
           trace :=
             [TimerCalled \<lparr>next_timeout = 5000000, timeout = 5, cb = 10\<rparr> True,
              TimerCalled \<lparr>next_timeout = 7000000, timeout = 7, cb = 20\<rparr> True,
              TimerCalled \<lparr>next_timeout = 10000000, timeout = 5, cb = 10\<rparr> True,
              Waited 2,
              TimerCalled \<lparr>next_timeout = 14000000, timeout = 7, cb = 20\<rparr> True,
              TimerCalled \<lparr>next_timeout = 15000000, timeout = 5, cb = 10\<rparr> True,
              TimerCalled \<lparr>next_timeout = 20000000, timeout = 5, cb = 10\<rparr> True,
              TimerCalled \<lparr>next_timeout = 21000000, timeout = 7, cb = 20\<rparr> True,
              TimerCalled \<lparr>next_timeout = 25000000, timeout = 5, cb = 10\<rparr> True]\<rparr>)
   \<and> drift_free 10 0 5
       (Dispatcher_new\<lparr>terminate := True,
           timer_pq := [\<lparr>next_timeout = 28000000, timeout = 7, cb = 20\<rparr>,
                        \<lparr>next_timeout = 30000000, timeout = 5, cb = 10\<rparr>],
           trace :=
             [TimerCalled \<lparr>next_timeout = 5000000, timeout = 5, cb = 10\<rparr> True,
              TimerCalled \<lparr>next_timeout = 7000000, timeout = 7, cb = 20\<rparr> True,
              TimerCalled \<lparr>next_timeout = 10000000, timeout = 5, cb = 10\<rparr> True,
              Waited 2,
              TimerCalled \<lparr>next_timeout = 14000000, timeout = 7, cb = 20\<rparr> True,
              TimerCalled \<lparr>next_timeout = 15000000, timeout = 5, cb = 10\<rparr> True,
              TimerCalled \<lparr>next_timeout = 20000000, timeout = 5, cb = 10\<rparr> True,
              TimerCalled \<lparr>next_timeout = 21000000, timeout = 7, cb = 20\<rparr> True,
              TimerCalled \<lparr>next_timeout = 25000000, timeout = 5, cb = 10\<rparr> True]\<rparr>)"
proof -
  let ?base = "AddTimer 0 7 20 Dispatcher_new"
  let ?d = "AddTimer 0 5 10 ?base"
  let ?its = "[(12000000, [CbRun True False, CbRun True False, CbRun True False], []),
                 (26000000, [CbRun True False, CbRun True False, CbRun True False,
                             CbRun True False, CbRun True True], [])]"
  let ?evs = "[TimerCalled \<lparr>next_timeout = 5000000, timeout = 5, cb = 10\<rparr> True,
         TimerCalled \<lparr>next_timeout = 7000000, timeout = 7, cb = 20\<rparr> True,
         TimerCalled \<lparr>next_timeout = 10000000, timeout = 5, cb = 10\<rparr> True,
         Waited 2,
         TimerCalled \<lparr>next_timeout = 14000000, timeout = 7, cb = 20\<rparr> True,
         TimerCalled \<lparr>next_timeout = 15000000, timeout = 5, cb = 10\<rparr> True,
         TimerCalled \<lparr>next_timeout = 20000000, timeout = 5, cb = 10\<rparr> True,
         TimerCalled \<lparr>next_timeout = 21000000, timeout = 7, cb = 20\<rparr> True,
         TimerCalled \<lparr>next_timeout = 25000000, timeout = 5, cb = 10\<rparr> True]"
  let ?d' = "Dispatcher_new\<lparr>terminate := True,
      timer_pq := [\<lparr>next_timeout = 28000000, timeout = 7, cb = 20\<rparr>,
                   \<lparr>next_timeout = 30000000, timeout = 5, cb = 10\<rparr>],
      trace := ?evs\<rparr>"
  have T: "(0 :: int) \<le> 5" by simp
  have t0: "int64 0" by (simp add: int64_def)
  note main = drift_free_rescheduling [OF T t0]
  have fresh: "fired 10 (trace ?base) = [] \<and> pending 10 ?base = []"
    by code_simp
  have rep: "representable 10 0 5 ?d"
    by code_simp
  have inv: "drift_free 10 0 5 ?d"
    using main [of 10 ?base] fresh rep by blast
  have run: "Loop ?its ?d = Some (Normal, ?d')"
    by code_simp
  have tr: "drop (length (trace ?d)) (trace ?d') = ?evs"
    by (simp add: AddTimer_def Dispatcher_new_def)
  have keep: "keeps_returning_true 10 (drop (length (trace ?d)) (trace ?d'))"
    unfolding tr by simp
  have rep': "representable 10 0 5 ?d'"
    by code_simp
  have inv': "drift_free 10 0 5 ?d'"
    using main [of 10 _ ?d _ _ _ _ _ ?d' ?its] inv run keep rep' by blast
  show ?thesis
    using inv run inv' by simp
qed

end
